theory Spec2Isabelle
  imports Main "HOL-Library.AList"
begin

section \<open>Nostr primitives\<close>

text \<open>
  The wire types of \<^verbatim>\<open>Nostr\<close> (nostr/primitive.ts). The field \<^verbatim>\<open>id\<close> of an event is
  called \<open>event_id\<close> here, since \<open>id\<close> is the identity function of HOL. JavaScript
  numbers that hold integers are \<open>int\<close>.
\<close>

record Event =
  event_id :: string
  sig :: string
  kind :: int
  tags :: "string list list"
  pubkey :: string
  content :: string
  created_at :: int

record Filter =
  ids :: "string list option"
  kinds :: "int list option"
  authors :: "string list option"
  since :: "int option"
  until :: "int option"
  limit :: "int option"
  tag_filters :: "(string \<times> string list) list"

text \<open>\<^verbatim>\<open>OutgoingMessage.REQ = ["REQ", subId, ...filters]\<close>; \<open>subId_of req\<close> is \<^verbatim>\<open>req[1]\<close>.\<close>

datatype REQ = REQ (subId_of: string) (filters_of: "Filter list")

datatype OutgoingMessage = Req REQ | CLOSE string | EVENT Event | AUTH Event

datatype IncomingMessage =
    In_EVENT string Event
  | EOSE string
  | OK string bool "string option"
  | In_AUTH string
  | NOTICE string

section \<open>Packets\<close>

text \<open>
  Modelled from the spec: packet.ts is not among the sources. The connection states are
  those of the spec's data model; the state the spec calls \<^verbatim>\<open>initialized\<close> is the
  literal \<^verbatim>\<open>"not-started"\<close> of \<^verbatim>\<open>getRelayState\<close>.
\<close>

datatype ConnectionState =
  NotStarted | Starting | Ongoing | Reconnecting | Error | Terminated | Rejected

record Packet =
  "from" :: string

record MessagePacket = Packet +
  message :: IncomingMessage

record EventPacket = Packet +
  subId :: string
  event :: Event

record OkPacket = Packet +
  ok_id :: string

record ErrorPacket = Packet +
  reason :: string

record ConnectionStatePacket = Packet +
  state :: ConnectionState

section \<open>The relay pool\<close>

record Relay =
  url :: string
  read :: bool
  "write" :: bool

text \<open>
  \<^verbatim>\<open>interface RelayState\<close>. The set \<^verbatim>\<open>activeSubIds\<close> and the \<^verbatim>\<open>websocket\<close> are objects
  that the previous and the next pool of \<^verbatim>\<open>setRelays\<close> share, so a relay record holds
  their addresses in the store of the client.
\<close>

record RelayState = Relay +
  activeSubIds :: nat
  websocket :: nat

text \<open>The calls index.ts makes on a \<^verbatim>\<open>WebsocketSubject\<close>.\<close>

datatype ws_call = Start | Stop | Dispose | Send OutgoingMessage

datatype error = RelayNotFound | FinalizeError | UnnullError | NormalizeUrlError

datatype stream_status = Active | Completed | Errored | Unsubscribed

text \<open>
  The closure of \<^verbatim>\<open>createEoseManagedEventObservable(subId)\<close>: the subscription of
  \<^verbatim>\<open>use()\<close> whose \<^verbatim>\<open>mergeAll\<close> holds the stream, the sub id, the set \<^verbatim>\<open>eoseRelays\<close>,
  whether the stream returned is still running, and the event packets it has emitted.
\<close>

record EoseManaged =
  em_use :: nat
  em_subId :: string
  eoseRelays :: "string list"
  em_status :: stream_status
  em_out :: "EventPacket list"

text \<open>
  \<^verbatim>\<open>class RxNostrImpl\<close> with the objects it owns. \<^verbatim>\<open>relays\<close> and \<^verbatim>\<open>activeReqs\<close> are
  JavaScript Maps (insertion ordered, so association lists); the three subjects are
  represented by their \<^verbatim>\<open>isStopped\<close> flags; \<open>subIdSets\<close> is the store of the
  \<^verbatim>\<open>Set<string>\<close> objects (a Set iterates in insertion order, so each is a list) and
  \<open>socket_url\<close> that of the websockets, with the state each one reports
  (\<^verbatim>\<open>getState()\<close>), the number of resubscriptions \<^verbatim>\<open>retry\<close> has made for it and
  whether its message pipeline has ended. \<open>calls\<close> is the sequence of calls made on
  websockets, \<open>errors_out\<close> what \<^verbatim>\<open>error$\<close> has emitted, and \<open>eose_streams\<close> the inner
  streams of backward and oneshot subscriptions that observe \<^verbatim>\<open>message$\<close> and
  \<^verbatim>\<open>status$\<close>.
\<close>

record RxNostrImpl =
  options_retry :: nat
  options_timeout :: nat
  relays :: "(string \<times> RelayState) list"
  activeReqs :: "(string \<times> REQ) list"
  message_stopped :: bool
  error_stopped :: bool
  status_stopped :: bool
  subIdSets :: "nat \<Rightarrow> string list"
  set_count :: nat
  socket_url :: "nat \<Rightarrow> string"
  socket_state :: "nat \<Rightarrow> ConnectionState"
  socket_retries :: "nat \<Rightarrow> nat"
  socket_closed :: "nat \<Rightarrow> bool"
  socket_count :: nat
  calls :: "(nat \<times> ws_call) list"
  errors_out :: "ErrorPacket list"
  eose_streams :: "EoseManaged list"

text \<open>\<^verbatim>\<open>createRxNostr(options)\<close>: the defaults are retry 10 and timeout 10000.\<close>

definition createRxNostr :: "nat option \<Rightarrow> nat option \<Rightarrow> RxNostrImpl" where
  "createRxNostr retry_opt timeout_opt =
     \<lparr>options_retry = (case retry_opt of None \<Rightarrow> 10 | Some n \<Rightarrow> n),
      options_timeout = (case timeout_opt of None \<Rightarrow> 10000 | Some n \<Rightarrow> n),
      relays = [], activeReqs = [],
      message_stopped = False, error_stopped = False, status_stopped = False,
      subIdSets = (\<lambda>_. []), set_count = 0,
      socket_url = (\<lambda>_. []), socket_state = (\<lambda>_. NotStarted),
      socket_retries = (\<lambda>_. 0), socket_closed = (\<lambda>_. False), socket_count = 0,
      calls = [], errors_out = [], eose_streams = []\<rparr>"

subsection \<open>Sets, Maps and websocket calls\<close>

definition set_add :: "string \<Rightarrow> string list \<Rightarrow> string list" where
  "set_add x xs = (if x \<in> set xs then xs else xs @ [x])"

definition activeSubIds_add :: "nat \<Rightarrow> string \<Rightarrow> RxNostrImpl \<Rightarrow> RxNostrImpl" where
  "activeSubIds_add a x s = s\<lparr>subIdSets := (subIdSets s)(a := set_add x (subIdSets s a))\<rparr>"

definition activeSubIds_delete :: "nat \<Rightarrow> string \<Rightarrow> RxNostrImpl \<Rightarrow> RxNostrImpl" where
  "activeSubIds_delete a x s = s\<lparr>subIdSets := (subIdSets s)(a := removeAll x (subIdSets s a))\<rparr>"

definition activeSubIds_clear :: "nat \<Rightarrow> RxNostrImpl \<Rightarrow> RxNostrImpl" where
  "activeSubIds_clear a s = s\<lparr>subIdSets := (subIdSets s)(a := [])\<rparr>"

definition ws_call_on :: "nat \<Rightarrow> ws_call \<Rightarrow> RxNostrImpl \<Rightarrow> RxNostrImpl" where
  "ws_call_on w c s = s\<lparr>calls := calls s @ [(w, c)]\<rparr>"

text \<open>\<^verbatim>\<open>this.relays.get(url)?.websocket.m()\<close>: nothing happens for an unknown url.\<close>

definition ws_call_opt :: "RelayState option \<Rightarrow> ws_call \<Rightarrow> RxNostrImpl \<Rightarrow> RxNostrImpl" where
  "ws_call_opt r c s = (case r of None \<Rightarrow> s | Some rs \<Rightarrow> ws_call_on (websocket rs) c s)"

definition map_values :: "('k \<times> 'v) list \<Rightarrow> 'v list" where
  "map_values m = map snd m"

definition map_keys :: "('k \<times> 'v) list \<Rightarrow> 'k list" where
  "map_keys m = map fst m"

text \<open>A JavaScript string is falsy when it is undefined or empty.\<close>

definition truthy :: "string option \<Rightarrow> bool" where
  "truthy x = (case x of None \<Rightarrow> False | Some v \<Rightarrow> v \<noteq> [])"

subsection \<open>getRelays, readable and writable urls\<close>

definition getRelays :: "RxNostrImpl \<Rightarrow> Relay list" where
  "getRelays s =
     map (\<lambda>r. \<lparr>url = url r, read = read r, write = write r\<rparr>) (map_values (relays s))"

definition getReadableUrls :: "RelayState list option \<Rightarrow> RxNostrImpl \<Rightarrow> string list" where
  "getReadableUrls rs s =
     map url (filter read (case rs of None \<Rightarrow> map_values (relays s) | Some l \<Rightarrow> l))"

definition getWritableUrls :: "RelayState list option \<Rightarrow> RxNostrImpl \<Rightarrow> string list" where
  "getWritableUrls rs s =
     map url (filter write (case rs of None \<Rightarrow> map_values (relays s) | Some l \<Rightarrow> l))"

definition subtract :: "'a list \<Rightarrow> 'a list \<Rightarrow> 'a list" where
  "subtract a b = filter (\<lambda>e. e \<notin> set b) a"

subsection \<open>ensureReq and finalizeReq\<close>

text \<open>
  \<^verbatim>\<open>ensureReq(req, options)\<close>: the loop over \<^verbatim>\<open>options?.relays ?? this.relays.values()\<close>.
  An absent \<^verbatim>\<open>overwrite\<close> is falsy.
\<close>

fun ensureReq_loop :: "REQ \<Rightarrow> bool \<Rightarrow> RelayState list \<Rightarrow> RxNostrImpl \<Rightarrow> RxNostrImpl" where
  "ensureReq_loop req ow [] s = s"
| "ensureReq_loop req ow (relay # rest) s =
     (if \<not> read relay \<or> (\<not> ow \<and> subId_of req \<in> set (subIdSets s (activeSubIds relay)))
      then ensureReq_loop req ow rest s
      else ensureReq_loop req ow rest
             (activeSubIds_add (activeSubIds relay) (subId_of req)
                (ws_call_on (websocket relay) (Send (Req req)) s)))"

definition ensureReq ::
    "REQ \<Rightarrow> RelayState list option \<Rightarrow> bool option \<Rightarrow> RxNostrImpl \<Rightarrow> RxNostrImpl" where
  "ensureReq req rs_opt overwrite_opt s =
     ensureReq_loop req (case overwrite_opt of None \<Rightarrow> False | Some b \<Rightarrow> b)
       (case rs_opt of None \<Rightarrow> map_values (relays s) | Some rs \<Rightarrow> rs) s"

text \<open>
  The inner loop of \<^verbatim>\<open>finalizeReq\<close> for one sub id of one relay: CLOSE is sent when the
  relay holds the sub id, which is then deleted.
\<close>

definition finalize_subId :: "RelayState \<Rightarrow> string \<Rightarrow> RxNostrImpl \<Rightarrow> RxNostrImpl" where
  "finalize_subId relay sid s =
     activeSubIds_delete (activeSubIds relay) sid
       (if sid \<in> set (subIdSets s (activeSubIds relay))
        then ws_call_on (websocket relay) (Send (CLOSE sid)) s else s)"

definition finalize_relay :: "string option \<Rightarrow> RelayState \<Rightarrow> RxNostrImpl \<Rightarrow> RxNostrImpl" where
  "finalize_relay sid_opt relay s =
     fold (finalize_subId relay)
       (if truthy sid_opt then [the sid_opt] else subIdSets s (activeSubIds relay)) s"

text \<open>
  \<^verbatim>\<open>finalizeReq({subId, url})\<close>. The result is the exception thrown, if any, and the
  state reached. \<^verbatim>\<open>unnull\<close> (util.ts, not among the sources) is taken to throw on
  \<^verbatim>\<open>undefined\<close>; were it the identity, reading \<^verbatim>\<open>relay.activeSubIds\<close> would throw at
  the same state.
\<close>

definition finalizeReq ::
    "string option \<Rightarrow> string option \<Rightarrow> RxNostrImpl \<Rightarrow> error option \<times> RxNostrImpl" where
  "finalizeReq sid_opt url_opt s =
     (if sid_opt = None \<and> url_opt = None then (Some FinalizeError, s)
      else if truthy url_opt then
        (case map_of (relays s) (the url_opt) of
           None \<Rightarrow> (Some UnnullError, s)
         | Some relay \<Rightarrow> (None, finalize_relay sid_opt relay s))
      else (None, fold (finalize_relay sid_opt) (map_values (relays s)) s))"

subsection \<open>setRelays\<close>

text \<open>
  \<^verbatim>\<open>createWebsocket(url)\<close> allocates a websocket, and \<^verbatim>\<open>new Set()\<close> a set; a relay that
  the previous pool does not know gets both.
\<close>

definition createWebsocket :: "string \<Rightarrow> RxNostrImpl \<Rightarrow> nat \<times> RxNostrImpl" where
  "createWebsocket u s =
     (socket_count s,
      s\<lparr>socket_url := (socket_url s)(socket_count s := u),
        socket_state := (socket_state s)(socket_count s := NotStarted),
        socket_retries := (socket_retries s)(socket_count s := 0),
        socket_closed := (socket_closed s)(socket_count s := False),
        socket_count := Suc (socket_count s)\<rparr>)"

definition new_Set :: "RxNostrImpl \<Rightarrow> nat \<times> RxNostrImpl" where
  "new_Set s =
     (set_count s,
      s\<lparr>subIdSets := (subIdSets s)(set_count s := []), set_count := Suc (set_count s)\<rparr>)"

definition next_entry ::
    "(string \<times> RelayState) list \<Rightarrow> Relay \<Rightarrow> RxNostrImpl \<Rightarrow> RelayState \<times> RxNostrImpl" where
  "next_entry prev relay s =
     (case map_of prev (url relay) of
        Some prevState \<Rightarrow>
          (\<lparr>url = url relay, read = read relay, write = write relay,
            activeSubIds = activeSubIds prevState, websocket = websocket prevState\<rparr>, s)
      | None \<Rightarrow>
          (\<lparr>url = url relay, read = read relay, write = write relay,
            activeSubIds = fst (new_Set (snd (createWebsocket (url relay) s))),
            websocket = fst (createWebsocket (url relay) s)\<rparr>,
           snd (new_Set (snd (createWebsocket (url relay) s)))))"

fun getNextRelayState_loop ::
    "(string \<times> RelayState) list \<Rightarrow> Relay list \<Rightarrow> (string \<times> RelayState) list \<Rightarrow> RxNostrImpl
     \<Rightarrow> (string \<times> RelayState) list \<times> RxNostrImpl" where
  "getNextRelayState_loop prev [] nxt s = (nxt, s)"
| "getNextRelayState_loop prev (relay # rest) nxt s =
     getNextRelayState_loop prev rest
       (AList.update (url relay) (fst (next_entry prev relay s)) nxt)
       (snd (next_entry prev relay s))"

text \<open>
  The argument of \<^verbatim>\<open>setRelays\<close>: an array of urls and relays, or the object of NIP-07's
  \<^verbatim>\<open>getRelays\<close>, whose entries are a url with its (read, write) flags.
\<close>

datatype url_or_relay = Url string | RelayObj Relay

datatype relays_input =
    RelayArray "url_or_relay list"
  | RelayObject "(string \<times> bool \<times> bool) list"

text \<open>
  \<^verbatim>\<open>normalizeUrl\<close> is the package normalize-url, a parameter here; it throws on what
  it cannot parse, which is \<open>None\<close>. It returns a url of the schemes ws and wss as it
  is, so in the examples, whose urls are of these schemes, the parameter is \<open>Some\<close>.
\<close>

definition normalizeRelay :: "(string \<Rightarrow> string option) \<Rightarrow> url_or_relay \<Rightarrow> Relay option" where
  "normalizeRelay normalizeUrl urlOrRelay =
     (let relay = (case urlOrRelay of
                     Url u \<Rightarrow> \<lparr>url = u, read = True, write = True\<rparr>
                   | RelayObj r \<Rightarrow> r)
      in case normalizeUrl (url relay) of
           None \<Rightarrow> None
         | Some u \<Rightarrow> Some (relay\<lparr>url := u\<rparr>))"

definition input_relays :: "(string \<Rightarrow> string option) \<Rightarrow> relays_input \<Rightarrow> Relay list option" where
  "input_relays normalizeUrl input =
     (case input of
        RelayArray xs \<Rightarrow> those (map (normalizeRelay normalizeUrl) xs)
      | RelayObject es \<Rightarrow>
          Some (map (\<lambda>(u, r, w). \<lparr>url = u, read = r, write = w\<rparr>) es))"

definition getNextRelayState ::
    "(string \<Rightarrow> string option) \<Rightarrow> (string \<times> RelayState) list \<Rightarrow> relays_input \<Rightarrow> RxNostrImpl
     \<Rightarrow> ((string \<times> RelayState) list \<times> RxNostrImpl) option" where
  "getNextRelayState normalizeUrl prev input s =
     (case input_relays normalizeUrl input of
        None \<Rightarrow> None
      | Some rs \<Rightarrow> Some (getNextRelayState_loop prev rs [] s))"

text \<open>The first loop of \<^verbatim>\<open>setRelays\<close>, over \<^verbatim>\<open>urlsNoLongerRead\<close>.\<close>

fun stop_loop :: "string list \<Rightarrow> RxNostrImpl \<Rightarrow> error option \<times> RxNostrImpl" where
  "stop_loop [] s = (None, s)"
| "stop_loop (u # us) s =
     (case finalizeReq None (Some u) s of
        (Some e, s') \<Rightarrow> (Some e, s')
      | (None, s') \<Rightarrow> stop_loop us (ws_call_opt (map_of (relays s') u) Stop s'))"

definition start_loop ::
    "(string \<times> RelayState) list \<Rightarrow> string list \<Rightarrow> RxNostrImpl \<Rightarrow> RxNostrImpl" where
  "start_loop nextRelays us s = fold (\<lambda>u. ws_call_opt (map_of nextRelays u) Start) us s"

text \<open>
  One of the two loops over \<^verbatim>\<open>this.activeReqs.values()\<close>. Its body evaluates
  \<^verbatim>\<open>urlsToBeRead.map((url) => unnull(nextRelays.get(url)))\<close>, the same list at every
  turn, so when a url is unknown the first turn throws.
\<close>

definition req_loop ::
    "(string \<times> RelayState) list \<Rightarrow> string list \<Rightarrow> RxNostrImpl \<Rightarrow> error option \<times> RxNostrImpl" where
  "req_loop nextRelays urlsToBeRead s =
     (if map_values (activeReqs s) = [] then (None, s)
      else case those (map (map_of nextRelays) urlsToBeRead) of
             None \<Rightarrow> (Some UnnullError, s)
           | Some rs \<Rightarrow>
               (None, fold (\<lambda>req. ensureReq req (Some rs) None) (map_values (activeReqs s)) s))"

definition dispose_loop :: "string list \<Rightarrow> RxNostrImpl \<Rightarrow> RxNostrImpl" where
  "dispose_loop us s = fold (\<lambda>u s'. ws_call_opt (map_of (relays s') u) Dispose s') us s"

definition setRelays ::
    "(string \<Rightarrow> string option) \<Rightarrow> relays_input \<Rightarrow> RxNostrImpl \<Rightarrow> error option \<times> RxNostrImpl" where
  "setRelays normalizeUrl input s =
     (case getNextRelayState normalizeUrl (relays s) input s of
        None \<Rightarrow> (Some NormalizeUrlError, s)
      | Some (nextRelays, s1) \<Rightarrow>
          (let prevReadableUrls = getReadableUrls None s1;
               nextReadableUrls = getReadableUrls (Some (map_values nextRelays)) s1;
               urlsNoLongerRead = subtract prevReadableUrls nextReadableUrls;
               urlsToBeRead = subtract nextReadableUrls prevReadableUrls
           in case stop_loop urlsNoLongerRead s1 of
                (Some e, s2) \<Rightarrow> (Some e, s2)
              | (None, s2) \<Rightarrow>
                  (case req_loop nextRelays urlsToBeRead (start_loop nextRelays urlsToBeRead s2) of
                     (Some e, s3) \<Rightarrow> (Some e, s3)
                   | (None, s3) \<Rightarrow>
                       (case req_loop nextRelays urlsToBeRead s3 of
                          (Some e, s4) \<Rightarrow> (Some e, s4)
                        | (None, s4) \<Rightarrow>
                            (None,
                             (dispose_loop
                                (subtract (map_keys (relays s4)) (map_keys nextRelays)) s4)
                               \<lparr>relays := nextRelays\<rparr>)))))"

definition switchRelays ::
    "(string \<Rightarrow> string option) \<Rightarrow> relays_input \<Rightarrow> RxNostrImpl \<Rightarrow> error option \<times> RxNostrImpl" where
  "switchRelays normalizeUrl input s = setRelays normalizeUrl input s"

definition addRelay ::
    "(string \<Rightarrow> string option) \<Rightarrow> url_or_relay \<Rightarrow> RxNostrImpl \<Rightarrow> error option \<times> RxNostrImpl" where
  "addRelay normalizeUrl relay s =
     setRelays normalizeUrl (RelayArray (map RelayObj (getRelays s) @ [relay])) s"

definition removeRelay ::
    "(string \<Rightarrow> string option) \<Rightarrow> string \<Rightarrow> RxNostrImpl \<Rightarrow> error option \<times> RxNostrImpl" where
  "removeRelay normalizeUrl u s =
     (let currentRelays = getRelays s;
          nextRelays = filter (\<lambda>relay. url relay \<noteq> u) currentRelays
      in if length currentRelays \<noteq> length nextRelays
         then setRelays normalizeUrl (RelayArray (map RelayObj nextRelays)) s
         else (None, s))"

definition hasRelay :: "string \<Rightarrow> RxNostrImpl \<Rightarrow> bool" where
  "hasRelay u s = list_ex (\<lambda>relay. url relay = u) (getRelays s)"

subsection \<open>Relay states\<close>

text \<open>
  \<^verbatim>\<open>getRelayState(url)\<close> throws for a url that is not a key of \<^verbatim>\<open>this.relays\<close>. A relay
  record always holds a websocket here, so the \<^verbatim>\<open>"not-started"\<close> default is the state
  a new websocket has.
\<close>

definition getRelayState :: "string \<Rightarrow> RxNostrImpl \<Rightarrow> error + ConnectionState" where
  "getRelayState u s =
     (case map_of (relays s) u of
        None \<Rightarrow> Inl RelayNotFound
      | Some relay \<Rightarrow> Inr (socket_state s (websocket relay)))"

fun getAllRelayState_loop ::
    "RelayState list \<Rightarrow> RxNostrImpl \<Rightarrow> error + (string \<times> ConnectionState) list" where
  "getAllRelayState_loop [] s = Inr []"
| "getAllRelayState_loop (e # es) s =
     (case getRelayState (url e) s of
        Inl err \<Rightarrow> Inl err
      | Inr st \<Rightarrow>
          (case getAllRelayState_loop es s of
             Inl err \<Rightarrow> Inl err
           | Inr rest \<Rightarrow> Inr ((url e, st) # rest)))"

definition getAllRelayState :: "RxNostrImpl \<Rightarrow> error + (string \<times> ConnectionState) list" where
  "getAllRelayState s = getAllRelayState_loop (map_values (relays s)) s"

definition reconnect :: "string \<Rightarrow> RxNostrImpl \<Rightarrow> RxNostrImpl" where
  "reconnect u s = ws_call_opt (map_of (relays s) u) Start s"

section \<open>Subscriptions\<close>

datatype strategy = Forward | Backward | Oneshot

text \<open>The decimal digits of an index, as a template literal prints a number.\<close>

fun digits :: "nat \<Rightarrow> string" where
  "digits n =
     (if n < 10 then [''0123456789'' ! n]
      else digits (n div 10) @ [''0123456789'' ! (n mod 10)])"

definition makeSubId :: "string \<Rightarrow> nat option \<Rightarrow> string" where
  "makeSubId rxReqId index =
     rxReqId @ '':'' @ digits (case index of None \<Rightarrow> 0 | Some i \<Rightarrow> i)"

definition recordActiveReq :: "REQ \<Rightarrow> RxNostrImpl \<Rightarrow> RxNostrImpl" where
  "recordActiveReq req s = s\<lparr>activeReqs := AList.update (subId_of req) req (activeReqs s)\<rparr>"

definition forgetActiveReq :: "string \<Rightarrow> RxNostrImpl \<Rightarrow> RxNostrImpl" where
  "forgetActiveReq sid s = s\<lparr>activeReqs := AList.delete sid (activeReqs s)\<rparr>"

definition attachSubId :: "strategy \<Rightarrow> string \<Rightarrow> nat \<Rightarrow> Filter list \<Rightarrow> REQ" where
  "attachSubId st rxReqId index fs =
     (case st of
        Backward \<Rightarrow> REQ (makeSubId rxReqId (Some index)) fs
      | Forward \<Rightarrow> REQ (makeSubId rxReqId None) fs
      | Oneshot \<Rightarrow> REQ (makeSubId rxReqId None) fs)"

definition ensureReqOnNext :: "strategy \<Rightarrow> REQ \<Rightarrow> RxNostrImpl \<Rightarrow> RxNostrImpl" where
  "ensureReqOnNext st req s = ensureReq req None (Some (st = Forward)) s"

subsection \<open>The inner stream of a backward or oneshot REQ\<close>

definition createEoseManagedEventObservable :: "nat \<Rightarrow> string \<Rightarrow> EoseManaged" where
  "createEoseManagedEventObservable uid sid =
     \<lparr>em_use = uid, em_subId = sid, eoseRelays = [], em_status = Active, em_out = []\<rparr>"

text \<open>
  The \<^verbatim>\<open>finalize\<close> callback of the inner stream, run when the stream ends with the
  status given: \<^verbatim>\<open>finalizeReq({ subId })\<close>, then the subjects and \<^verbatim>\<open>manageCompletion\<close>
  are unsubscribed.
\<close>

definition em_finalize :: "stream_status \<Rightarrow> EoseManaged \<Rightarrow> RxNostrImpl \<Rightarrow> EoseManaged \<times> RxNostrImpl" where
  "em_finalize st em s =
     (em\<lparr>em_status := st\<rparr>, snd (finalizeReq (Some (em_subId em)) None s))"

text \<open>
  \<^verbatim>\<open>Object.fromEntries\<close> followed by \<^verbatim>\<open>Object.entries\<close>: a key that occurs twice
  keeps its first place and its last value.
\<close>

definition fromEntries :: "('k \<times> 'v) list \<Rightarrow> ('k \<times> 'v) list" where
  "fromEntries ps = fold (\<lambda>(k, v). AList.update k v) ps []"

definition shouldComplete :: "(string \<times> ConnectionState) list \<Rightarrow> string list \<Rightarrow> bool" where
  "shouldComplete status eose =
     list_all (\<lambda>(u, st). st = Error \<or> st = Terminated \<or> (st = Ongoing \<and> u \<in> set eose))
       (fromEntries status)"

text \<open>
  The subscriber \<^verbatim>\<open>manageCompletion\<close> of \<^verbatim>\<open>merge(eose$, status$)\<close>. When
  \<^verbatim>\<open>complete$\<close> fires, \<^verbatim>\<open>takeUntil\<close> completes the stream. An exception of
  \<^verbatim>\<open>getAllRelayState\<close> in this callback is reported and changes nothing.
\<close>

definition manageCompletion :: "EoseManaged \<Rightarrow> RxNostrImpl \<Rightarrow> EoseManaged \<times> RxNostrImpl" where
  "manageCompletion em s =
     (if em_status em \<noteq> Active then (em, s)
      else case getAllRelayState s of
             Inl e \<Rightarrow> (em, s)
           | Inr status \<Rightarrow>
               if shouldComplete status (eoseRelays em) then em_finalize Completed em s
               else (em, s))"

definition filterBySubId :: "string \<Rightarrow> MessagePacket \<Rightarrow> bool" where
  "filterBySubId sid packet =
     (case message packet of
        In_EVENT sid' ev \<Rightarrow> sid' = sid
      | EOSE sid' \<Rightarrow> sid' = sid
      | _ \<Rightarrow> False)"

definition pickEvents :: "MessagePacket \<Rightarrow> EventPacket list" where
  "pickEvents packet =
     (case message packet of
        In_EVENT sid ev \<Rightarrow> [\<lparr>from = from packet, subId = sid, event = ev\<rparr>]
      | _ \<Rightarrow> [])"

text \<open>
  One packet of \<^verbatim>\<open>message$\<close> through the pipe of the inner stream. An exception in the
  \<^verbatim>\<open>tap\<close> callback (\<^verbatim>\<open>finalizeReq\<close> for a sender that is not in the pool) is an error
  of the stream; what the error sets off is \<open>stream_error\<close> below. The timer of
  \<^verbatim>\<open>completeOnTimeout\<close> is the event \<open>em_timeout\<close>.
\<close>

definition em_next :: "MessagePacket \<Rightarrow> EoseManaged \<Rightarrow> RxNostrImpl \<Rightarrow> EoseManaged \<times> RxNostrImpl" where
  "em_next packet em s =
     (if em_status em \<noteq> Active then (em, s)
      else if \<not> filterBySubId (em_subId em) packet then (em, s)
      else if from packet \<in> set (eoseRelays em) then (em, s)
      else case message packet of
             EOSE sid \<Rightarrow>
               (case finalizeReq (Some (em_subId em)) (Some (from packet)) s of
                  (Some e, s1) \<Rightarrow>
                    (em\<lparr>eoseRelays := set_add (from packet) (eoseRelays em), em_status := Errored\<rparr>, s1)
                | (None, s1) \<Rightarrow>
                    manageCompletion (em\<lparr>eoseRelays := set_add (from packet) (eoseRelays em)\<rparr>) s1)
           | _ \<Rightarrow> (em\<lparr>em_out := em_out em @ pickEvents packet\<rparr>, s))"

definition em_timeout :: "EoseManaged \<Rightarrow> RxNostrImpl \<Rightarrow> EoseManaged \<times> RxNostrImpl" where
  "em_timeout em s = (if em_status em \<noteq> Active then (em, s) else em_finalize Completed em s)"

definition em_complete :: "EoseManaged \<Rightarrow> RxNostrImpl \<Rightarrow> EoseManaged \<times> RxNostrImpl" where
  "em_complete em s = (if em_status em \<noteq> Active then (em, s) else em_finalize Completed em s)"

text \<open>A notification of a subject reaches its observers in the order they subscribed.\<close>

fun dispatch ::
    "(EoseManaged \<Rightarrow> RxNostrImpl \<Rightarrow> EoseManaged \<times> RxNostrImpl) \<Rightarrow> EoseManaged list \<Rightarrow> RxNostrImpl
     \<Rightarrow> EoseManaged list \<times> RxNostrImpl" where
  "dispatch h [] s = ([], s)"
| "dispatch h (em # ems) s =
     (fst (h em s) # fst (dispatch h ems (snd (h em s))),
      snd (dispatch h ems (snd (h em s))))"

definition notify ::
    "(EoseManaged \<Rightarrow> RxNostrImpl \<Rightarrow> EoseManaged \<times> RxNostrImpl) \<Rightarrow> RxNostrImpl \<Rightarrow> RxNostrImpl" where
  "notify h s = (snd (dispatch h (eose_streams s) s))\<lparr>eose_streams := fst (dispatch h (eose_streams s) s)\<rparr>"

text \<open>
  The error of the inner stream at index \<open>k\<close>. \<^verbatim>\<open>mergeAll\<close> hands it on to the stream of
  \<^verbatim>\<open>use()\<close>, whose subscriber is then unsubscribed with all it holds: the inner streams
  of this subscription that are still subscribed, in the order of their creation, the
  failed one among them. The \<^verbatim>\<open>finalize\<close> callback of each runs at its turn.
\<close>

definition unsubscribe_inner :: "nat \<Rightarrow> nat \<Rightarrow> RxNostrImpl \<Rightarrow> RxNostrImpl" where
  "unsubscribe_inner k j s =
     (let em = eose_streams s ! j
      in if j = k \<or> (em_use em = em_use (eose_streams s ! k) \<and> em_status em = Active)
         then (snd (em_finalize (if j = k then Errored else Unsubscribed) em s))
                \<lparr>eose_streams :=
                   (eose_streams s)[j := fst (em_finalize (if j = k then Errored else Unsubscribed) em s)]\<rparr>
         else s)"

definition stream_error :: "nat \<Rightarrow> RxNostrImpl \<Rightarrow> RxNostrImpl" where
  "stream_error k s = fold (unsubscribe_inner k) [0..<length (eose_streams s)] s"

text \<open>
  \<^verbatim>\<open>message$.next(packet)\<close>: the packet goes to the inner streams in the order they
  subscribed. A stream that an earlier one has unsubscribed ignores it.
\<close>

definition deliver :: "MessagePacket \<Rightarrow> nat \<Rightarrow> RxNostrImpl \<Rightarrow> RxNostrImpl" where
  "deliver packet i s =
     (let em = eose_streams s ! i;
          s1 = (snd (em_next packet em s))
                 \<lparr>eose_streams := (eose_streams s)[i := fst (em_next packet em s)]\<rparr>
      in if em_status em = Active \<and> em_status (fst (em_next packet em s)) = Errored
         then stream_error i s1 else s1)"

definition message_next :: "MessagePacket \<Rightarrow> RxNostrImpl \<Rightarrow> RxNostrImpl" where
  "message_next packet s =
     (if message_stopped s then s
      else fold (deliver packet) [0..<length (eose_streams s)] s)"

definition message_complete :: "RxNostrImpl \<Rightarrow> RxNostrImpl" where
  "message_complete s =
     (if message_stopped s then s else notify em_complete (s\<lparr>message_stopped := True\<rparr>))"

definition status_next :: "ConnectionStatePacket \<Rightarrow> RxNostrImpl \<Rightarrow> RxNostrImpl" where
  "status_next packet s = (if status_stopped s then s else notify manageCompletion s)"

definition error_next :: "ErrorPacket \<Rightarrow> RxNostrImpl \<Rightarrow> RxNostrImpl" where
  "error_next packet s =
     (if error_stopped s then s else s\<lparr>errors_out := errors_out s @ [packet]\<rparr>)"

subsection \<open>use\<close>

text \<open>
  The pipeline \<^verbatim>\<open>subId$\<close> of one subscription of the stream of \<^verbatim>\<open>use(rxReq)\<close>: the
  index that \<^verbatim>\<open>map\<close> counts, and whether \<^verbatim>\<open>first()\<close> has completed it. \<open>use_id\<close> is the
  identity of the subscription, an object of the caller, who gives each its own.
  \<open>subId_next\<close> is one value of \<^verbatim>\<open>rxReq.getReqObservable()\<close>; for backward and oneshot
  the sub id it emits becomes an inner stream, which \<^verbatim>\<open>mergeAll\<close> subscribes at once (a
  stopped \<^verbatim>\<open>message$\<close> completes it at once). Once an inner stream has failed the
  subscription is over, and \<^verbatim>\<open>subId$\<close> is unsubscribed with it.
\<close>

record Subscription =
  use_id :: nat
  rxReqId :: string
  use_strategy :: strategy
  use_index :: nat
  use_done :: bool

definition use :: "nat \<Rightarrow> string \<Rightarrow> strategy \<Rightarrow> Subscription" where
  "use uid rid st =
     \<lparr>use_id = uid, rxReqId = rid, use_strategy = st, use_index = 0, use_done = False\<rparr>"

definition use_failed :: "nat \<Rightarrow> RxNostrImpl \<Rightarrow> bool" where
  "use_failed uid s = list_ex (\<lambda>em. em_use em = uid \<and> em_status em = Errored) (eose_streams s)"

definition subscribe_inner :: "nat \<Rightarrow> string \<Rightarrow> RxNostrImpl \<Rightarrow> RxNostrImpl" where
  "subscribe_inner uid sid s =
     (if message_stopped s
      then (snd (em_finalize Completed (createEoseManagedEventObservable uid sid) s))
             \<lparr>eose_streams :=
                eose_streams s @ [fst (em_finalize Completed (createEoseManagedEventObservable uid sid) s)]\<rparr>
      else s\<lparr>eose_streams := eose_streams s @ [createEoseManagedEventObservable uid sid]\<rparr>)"

definition subId_next ::
    "Filter list option \<Rightarrow> Subscription \<Rightarrow> RxNostrImpl \<Rightarrow> Subscription \<times> RxNostrImpl" where
  "subId_next filters sub s =
     (case filters of
        None \<Rightarrow> (sub, s)
      | Some fs \<Rightarrow>
          if use_done sub \<or> (use_strategy sub \<noteq> Forward \<and> use_failed (use_id sub) s) then (sub, s)
          else
            (let req = attachSubId (use_strategy sub) (rxReqId sub) (use_index sub) fs;
                 s1 = (if use_strategy sub = Forward then recordActiveReq req s else s);
                 s2 = ensureReqOnNext (use_strategy sub) req s1
             in (sub\<lparr>use_index := Suc (use_index sub), use_done := (use_strategy sub = Oneshot)\<rparr>,
                 if use_strategy sub = Forward then s2
                 else subscribe_inner (use_id sub) (subId_of req) s2)))"

text \<open>
  Unsubscribing the stream of a forward subscription: \<^verbatim>\<open>subId$\<close> is unsubscribed, so
  \<^verbatim>\<open>manageActiveForwardReq\<close> forgets the REQ, and then \<^verbatim>\<open>finalizeReq({ subId })\<close>.
\<close>

definition forward_finalize :: "Subscription \<Rightarrow> RxNostrImpl \<Rightarrow> error option \<times> RxNostrImpl" where
  "forward_finalize sub s =
     finalizeReq (Some (makeSubId (rxReqId sub) None)) None
       (forgetActiveReq (makeSubId (rxReqId sub) None) s)"

subsection \<open>Websocket events\<close>

text \<open>
  What \<^verbatim>\<open>createWebsocket\<close> subscribes on a websocket \<open>w\<close>. A message passes
  \<^verbatim>\<open>retry\<close> and \<^verbatim>\<open>catchError\<close> to \<^verbatim>\<open>message$\<close>. An error resubscribes while fewer than
  \<^verbatim>\<open>options.retry\<close> errors came before; otherwise the handler of \<^verbatim>\<open>catchError\<close> clears
  the set of the relay of that url, emits on \<^verbatim>\<open>error$\<close> and ends the pipeline with
  \<^verbatim>\<open>EMPTY\<close>. A connection state is the new \<^verbatim>\<open>getState()\<close> of the websocket and goes to
  \<^verbatim>\<open>status$\<close>.
\<close>

definition socket_message :: "nat \<Rightarrow> MessagePacket \<Rightarrow> RxNostrImpl \<Rightarrow> RxNostrImpl" where
  "socket_message w packet s = (if socket_closed s w then s else message_next packet s)"

definition catchError_handler :: "nat \<Rightarrow> string \<Rightarrow> RxNostrImpl \<Rightarrow> RxNostrImpl" where
  "catchError_handler w why s =
     error_next \<lparr>from = socket_url s w, reason = why\<rparr>
       (case map_of (relays s) (socket_url s w) of
          None \<Rightarrow> s
        | Some relay \<Rightarrow> activeSubIds_clear (activeSubIds relay) s)"

definition socket_error :: "nat \<Rightarrow> string \<Rightarrow> RxNostrImpl \<Rightarrow> RxNostrImpl" where
  "socket_error w why s =
     (if socket_closed s w then s
      else if socket_retries s w < options_retry s
      then s\<lparr>socket_retries := (socket_retries s)(w := Suc (socket_retries s w))\<rparr>
      else (catchError_handler w why s)\<lparr>socket_closed := (socket_closed s)(w := True)\<rparr>)"

definition socket_connection_state :: "nat \<Rightarrow> ConnectionState \<Rightarrow> RxNostrImpl \<Rightarrow> RxNostrImpl" where
  "socket_connection_state w st s =
     status_next \<lparr>from = socket_url s w, state = st\<rparr>
       (s\<lparr>socket_state := (socket_state s)(w := st)\<rparr>)"

subsection \<open>dispose\<close>

definition dispose :: "RxNostrImpl \<Rightarrow> RxNostrImpl" where
  "dispose s =
     fold (\<lambda>relay. ws_call_on (websocket relay) Dispose)
       (map_values (relays s)) ((message_complete s)\<lparr>error_stopped := True\<rparr>)"

text \<open>The timer of \<^verbatim>\<open>completeOnTimeout\<close> fires for the inner stream at index \<open>i\<close>.\<close>

definition timeout_at :: "nat \<Rightarrow> RxNostrImpl \<Rightarrow> RxNostrImpl" where
  "timeout_at i s =
     (if i < length (eose_streams s)
      then (snd (em_timeout (eose_streams s ! i) s))
             \<lparr>eose_streams := (eose_streams s)[i := fst (em_timeout (eose_streams s ! i) s)]\<rparr>
      else s)"

section \<open>Publication\<close>

text \<open>
  The closure of one call of \<^verbatim>\<open>send(params, seckey)\<close>: the writable urls at the call,
  the signed event once the promise has resolved, the \<^verbatim>\<open>ReplaySubject\<close> (its buffer and
  its flags \<^verbatim>\<open>isStopped\<close> and \<^verbatim>\<open>closed\<close>), whether the listener on \<^verbatim>\<open>message$\<close> is
  subscribed, and the stream returned: \<open>None\<close> until the caller subscribes it, then its
  status, with the packets it has emitted. Signing is outside of index.ts: the event
  arrives with \<open>send_then\<close>. One subscription of the stream returned is modelled.
\<close>

record Publication =
  pub_urls :: "string list"
  pub_event :: "Event option"
  pub_buffer :: "OkPacket list"
  subject_stopped :: bool
  subject_closed :: bool
  listening :: bool
  pub_status :: "stream_status option"
  taken :: "OkPacket list"

definition send :: "RxNostrImpl \<Rightarrow> Publication" where
  "send s =
     \<lparr>pub_urls = getWritableUrls None s, pub_event = None, pub_buffer = [],
      subject_stopped = False, subject_closed = False, listening = False,
      pub_status = None, taken = []\<rparr>"

text \<open>
  The \<^verbatim>\<open>finalize\<close> callback: \<^verbatim>\<open>subject.complete()\<close>, \<^verbatim>\<open>subject.unsubscribe()\<close> and
  \<^verbatim>\<open>subscription?.unsubscribe()\<close>.
\<close>

definition pub_finalize :: "Publication \<Rightarrow> Publication" where
  "pub_finalize p = p\<lparr>subject_stopped := True, subject_closed := True, listening := False\<rparr>"

text \<open>
  \<^verbatim>\<open>take(urls.length)\<close> for a positive count: the value is emitted, and with the last
  one the stream completes, which runs \<^verbatim>\<open>finalize\<close>.
\<close>

definition take_next :: "OkPacket \<Rightarrow> Publication \<Rightarrow> Publication" where
  "take_next packet p =
     (if length (pub_urls p) \<le> length (taken p) + 1
      then pub_finalize (p\<lparr>taken := taken p @ [packet], pub_status := Some Completed\<rparr>)
      else p\<lparr>taken := taken p @ [packet]\<rparr>)"

text \<open>
  \<^verbatim>\<open>subject.next(packet)\<close> of \<^verbatim>\<open>new ReplaySubject(urls.length)\<close>: the buffer keeps the
  last \<^verbatim>\<open>Math.max(1, urls.length)\<close> values, and a subscriber gets the value. On a closed
  subject \<^verbatim>\<open>next\<close> throws inside the listener, which changes nothing.
\<close>

definition subject_next :: "OkPacket \<Rightarrow> Publication \<Rightarrow> Publication" where
  "subject_next packet p =
     (if subject_closed p \<or> subject_stopped p then p
      else if pub_status p = Some Active
      then take_next packet
             (p\<lparr>pub_buffer := drop (length (pub_buffer p) + 1 - max 1 (length (pub_urls p)))
                                  (pub_buffer p @ [packet])\<rparr>)
      else p\<lparr>pub_buffer := drop (length (pub_buffer p) + 1 - max 1 (length (pub_urls p)))
                               (pub_buffer p @ [packet])\<rparr>)"

text \<open>
  The listener that \<^verbatim>\<open>send\<close> subscribes on \<^verbatim>\<open>message$\<close>: every OK message gives a
  packet with the id of the signed event; the \<^verbatim>\<open>eventId\<close> of the message is not read.
\<close>

definition send_listener :: "MessagePacket \<Rightarrow> Publication \<Rightarrow> Publication" where
  "send_listener packet p =
     (if \<not> listening p then p
      else case message packet of
             OK eventId accepted msg \<Rightarrow>
               (case pub_event p of
                  None \<Rightarrow> p
                | Some ev \<Rightarrow> subject_next \<lparr>from = from packet, ok_id = event_id ev\<rparr> p)
           | _ \<Rightarrow> p)"

text \<open>
  The callback of \<^verbatim>\<open>then\<close>, with the signed event: the listener is subscribed unless
  the subject is closed (on a completed \<^verbatim>\<open>message$\<close> the subscription ends at once), and
  the event is sent to the relay that the pool now has for each url.
\<close>

definition send_then :: "Event \<Rightarrow> Publication \<Rightarrow> RxNostrImpl \<Rightarrow> Publication \<times> RxNostrImpl" where
  "send_then ev p s =
     (p\<lparr>pub_event := Some ev, listening := (\<not> subject_closed p \<and> \<not> message_stopped s)\<rparr>,
      fold (\<lambda>u s'. ws_call_opt (map_of (relays s') u) (Send (EVENT ev)) s') (pub_urls p) s)"

text \<open>
  The caller subscribes the stream returned. \<^verbatim>\<open>take(0)\<close> is \<^verbatim>\<open>EMPTY\<close>: the stream
  completes at once. Otherwise the subject replays its buffer to the new subscriber.
\<close>

definition pub_subscribe :: "Publication \<Rightarrow> Publication" where
  "pub_subscribe p =
     (if pub_status p \<noteq> None then p
      else if length (pub_urls p) = 0 then pub_finalize (p\<lparr>pub_status := Some Completed\<rparr>)
      else fold (\<lambda>packet q. if pub_status q = Some Active then take_next packet q else q)
             (pub_buffer p) (p\<lparr>pub_status := Some Active\<rparr>))"

definition pub_unsubscribe :: "Publication \<Rightarrow> Publication" where
  "pub_unsubscribe p =
     (if pub_status p = Some Active then pub_finalize (p\<lparr>pub_status := Some Unsubscribed\<rparr>)
      else p)"

text \<open>
  What can happen to a publication and its client: the promise resolves (once), a
  websocket delivers a packet, the caller subscribes or unsubscribes, the client is
  disposed.
\<close>

datatype pub_input =
    Resolved Event
  | Delivered nat MessagePacket
  | Subscribe
  | Unsubscribe
  | Disposed

fun pub_step :: "pub_input \<Rightarrow> Publication \<times> RxNostrImpl \<Rightarrow> Publication \<times> RxNostrImpl" where
  "pub_step (Resolved ev) (p, s) = (if pub_event p = None then send_then ev p s else (p, s))"
| "pub_step (Delivered w packet) (p, s) =
     (if socket_closed s w \<or> message_stopped s then p else send_listener packet p,
      socket_message w packet s)"
| "pub_step Subscribe (p, s) = (pub_subscribe p, s)"
| "pub_step Unsubscribe (p, s) = (pub_unsubscribe p, s)"
| "pub_step Disposed (p, s) = (p\<lparr>listening := False\<rparr>, dispose s)"

section \<open>Auxiliary predicates\<close>

definition frame_eq :: "RxNostrImpl \<Rightarrow> RxNostrImpl \<Rightarrow> bool" where
  "frame_eq s s' =
     (relays s' = relays s \<and> activeReqs s' = activeReqs s
      \<and> message_stopped s' = message_stopped s \<and> error_stopped s' = error_stopped s
      \<and> status_stopped s' = status_stopped s \<and> set_count s' = set_count s
      \<and> socket_url s' = socket_url s \<and> socket_state s' = socket_state s
      \<and> socket_retries s' = socket_retries s \<and> socket_closed s' = socket_closed s
      \<and> socket_count s' = socket_count s \<and> errors_out s' = errors_out s
      \<and> eose_streams s' = eose_streams s \<and> options_retry s' = options_retry s
      \<and> options_timeout s' = options_timeout s)"

text \<open>
  \<open>frame_eq\<close> above: nothing changes but the calls and the sets of sub ids.
  \<open>frame_but_streams\<close>: the inner streams may change too, their number stays.
\<close>

definition frame_but_streams :: "RxNostrImpl \<Rightarrow> RxNostrImpl \<Rightarrow> bool" where
  "frame_but_streams s s' =
     (frame_eq s (s'\<lparr>eose_streams := eose_streams s\<rparr>)
      \<and> length (eose_streams s') = length (eose_streams s))"

definition is_REQ_call :: "nat \<times> ws_call \<Rightarrow> bool" where
  "is_REQ_call c = (case snd c of Send (Req r) \<Rightarrow> True | _ \<Rightarrow> False)"

definition is_CLOSE_call :: "nat \<times> ws_call \<Rightarrow> bool" where
  "is_CLOSE_call c = (case snd c of Send (CLOSE sid) \<Rightarrow> True | _ \<Rightarrow> False)"

definition calls_ext :: "(nat \<times> ws_call \<Rightarrow> bool) \<Rightarrow> RxNostrImpl \<Rightarrow> RxNostrImpl \<Rightarrow> bool" where
  "calls_ext P s s' = (\<exists>new. calls s' = calls s @ new \<and> list_all P new)"

text \<open>Allocation only: what getNextRelayState may change.\<close>

definition alloc_ext :: "RxNostrImpl \<Rightarrow> RxNostrImpl \<Rightarrow> bool" where
  "alloc_ext s s' =
     (relays s' = relays s \<and> activeReqs s' = activeReqs s
      \<and> message_stopped s' = message_stopped s \<and> error_stopped s' = error_stopped s
      \<and> status_stopped s' = status_stopped s \<and> calls s' = calls s
      \<and> errors_out s' = errors_out s
      \<and> eose_streams s' = eose_streams s \<and> options_retry s' = options_retry s
      \<and> options_timeout s' = options_timeout s
      \<and> set_count s \<le> set_count s' \<and> socket_count s \<le> socket_count s'
      \<and> (\<forall>a. a < set_count s \<longrightarrow> subIdSets s' a = subIdSets s a)
      \<and> (\<forall>a. set_count s \<le> a \<and> a < set_count s' \<longrightarrow> subIdSets s' a = [])
      \<and> (\<forall>w. w < socket_count s \<longrightarrow> socket_url s' w = socket_url s w
              \<and> socket_state s' w = socket_state s w
              \<and> socket_retries s' w = socket_retries s w
              \<and> socket_closed s' w = socket_closed s w))"

definition next_inv ::
    "(string \<times> RelayState) list \<Rightarrow> RxNostrImpl \<Rightarrow> (string \<times> RelayState) list \<Rightarrow> RxNostrImpl \<Rightarrow> bool" where
  "next_inv prev s0 nxt s =
     (distinct (map fst nxt)
      \<and> set_count s0 \<le> set_count s \<and> socket_count s0 \<le> socket_count s
      \<and> (\<forall>k r. map_of nxt k = Some r \<longrightarrow> url r = k
            \<and> (case map_of prev k of
                   Some p \<Rightarrow> activeSubIds r = activeSubIds p \<and> websocket r = websocket p
                 | None \<Rightarrow> set_count s0 \<le> activeSubIds r \<and> activeSubIds r < set_count s
                          \<and> socket_count s0 \<le> websocket r \<and> websocket r < socket_count s))
      \<and> (\<forall>k r k' r'. map_of nxt k = Some r \<and> map_of nxt k' = Some r' \<and> k \<noteq> k'
            \<longrightarrow> activeSubIds r \<noteq> activeSubIds r' \<and> websocket r \<noteq> websocket r'))"

definition prev_ok :: "(string \<times> RelayState) list \<Rightarrow> RxNostrImpl \<Rightarrow> bool" where
  "prev_ok prev s0 =
     ((\<forall>k p. map_of prev k = Some p \<longrightarrow> activeSubIds p < set_count s0 \<and> websocket p < socket_count s0)
      \<and> (\<forall>k p k' p'. map_of prev k = Some p \<and> map_of prev k' = Some p' \<and> k \<noteq> k'
            \<longrightarrow> activeSubIds p \<noteq> activeSubIds p' \<and> websocket p \<noteq> websocket p'))"

text \<open>
  The invariant of the pool: the keys of \<^verbatim>\<open>relays\<close> are distinct and each is the url of
  its record; the sets and websockets of the records are allocated and no two records
  share one; a record that is not readable holds no sub id; the keys of \<^verbatim>\<open>activeReqs\<close>
  are distinct and each is the sub id of its REQ.
\<close>

definition pool_inv :: "RxNostrImpl \<Rightarrow> bool" where
  "pool_inv s =
     (distinct (map_keys (relays s))
      \<and> list_all (\<lambda>(k, r). url r = k \<and> activeSubIds r < set_count s \<and> websocket r < socket_count s
                         \<and> (read r \<or> subIdSets s (activeSubIds r) = [])) (relays s)
      \<and> distinct (map activeSubIds (map_values (relays s)))
      \<and> distinct (map websocket (map_values (relays s)))
      \<and> distinct (map_keys (activeReqs s))
      \<and> list_all (\<lambda>(k, q). subId_of q = k) (activeReqs s))"

definition sets_shrink :: "RxNostrImpl \<Rightarrow> RxNostrImpl \<Rightarrow> bool" where
  "sets_shrink s s' = (\<forall>a. set (subIdSets s' a) \<subseteq> set (subIdSets s a))"

text \<open>
  The states of a client: those that the calls of its interface and the events of its
  websockets and timers lead to, from \<^verbatim>\<open>createRxNostr\<close>.
\<close>

inductive reachable :: "RxNostrImpl \<Rightarrow> bool" where
  created: "reachable (createRxNostr retry_opt timeout_opt)"
| relays_set: "reachable s \<Longrightarrow> reachable (snd (setRelays normalizeUrl input s))"
| relay_added: "reachable s \<Longrightarrow> reachable (snd (addRelay normalizeUrl relay s))"
| relay_removed: "reachable s \<Longrightarrow> reachable (snd (removeRelay normalizeUrl u s))"
| reconnected: "reachable s \<Longrightarrow> reachable (reconnect u s)"
| req_emitted: "reachable s \<Longrightarrow> reachable (snd (subId_next filters sub s))"
| forward_unsubscribed: "reachable s \<Longrightarrow> reachable (snd (forward_finalize sub s))"
| timed_out: "reachable s \<Longrightarrow> reachable (timeout_at i s)"
| message_received: "reachable s \<Longrightarrow> reachable (socket_message w packet s)"
| socket_failed: "reachable s \<Longrightarrow> reachable (socket_error w why s)"
| state_reported: "reachable s \<Longrightarrow> reachable (socket_connection_state w st s)"
| event_sent: "reachable s \<Longrightarrow> reachable (snd (send_then ev p s))"
| disposed: "reachable s \<Longrightarrow> reachable (dispose s)"

text \<open>
  The same calls and events as data, so that a run of a client is a list:
  \<open>fold (client_step normalizeUrl) events s\<close> is the state after the run.
\<close>

datatype client_event =
    SetRelays relays_input
  | AddRelay url_or_relay
  | RemoveRelay string
  | Reconnect string
  | Emit "Filter list option" Subscription
  | UnsubscribeForward Subscription
  | Timer nat
  | Message nat MessagePacket
  | SocketError nat string
  | SocketState nat ConnectionState
  | SendEvent Event Publication
  | DisposeClient

fun client_step :: "(string \<Rightarrow> string option) \<Rightarrow> client_event \<Rightarrow> RxNostrImpl \<Rightarrow> RxNostrImpl" where
  "client_step n (SetRelays input) s = snd (setRelays n input s)"
| "client_step n (AddRelay relay) s = snd (addRelay n relay s)"
| "client_step n (RemoveRelay u) s = snd (removeRelay n u s)"
| "client_step n (Reconnect u) s = reconnect u s"
| "client_step n (Emit filters sub) s = snd (subId_next filters sub s)"
| "client_step n (UnsubscribeForward sub) s = snd (forward_finalize sub s)"
| "client_step n (Timer i) s = timeout_at i s"
| "client_step n (Message w packet) s = socket_message w packet s"
| "client_step n (SocketError w why) s = socket_error w why s"
| "client_step n (SocketState w st) s = socket_connection_state w st s"
| "client_step n (SendEvent ev p) s = snd (send_then ev p s)"
| "client_step n DisposeClient s = dispose s"

text \<open>
  The events of a forward subscription with the sub id \<open>sid\<close>: a REQ that it emits,
  and its unsubscription.
\<close>

fun of_subscription :: "string \<Rightarrow> client_event \<Rightarrow> bool" where
  "of_subscription sid (Emit filters sub) =
     (use_strategy sub = Forward \<and> makeSubId (rxReqId sub) None = sid)"
| "of_subscription sid (UnsubscribeForward sub) = (makeSubId (rxReqId sub) None = sid)"
| "of_subscription sid ev = False"

text \<open>
  A run during which no forward subscription with the sub id \<open>sid\<close> emits a REQ or is
  unsubscribed.
\<close>

definition stays_live :: "string \<Rightarrow> client_event list \<Rightarrow> bool" where
  "stays_live sid evs = list_all (\<lambda>ev. \<not> of_subscription sid ev) evs"

definition is_REQ_for :: "string \<Rightarrow> nat \<times> ws_call \<Rightarrow> bool" where
  "is_REQ_for sid c = (case snd c of Send (Req q) \<Rightarrow> subId_of q = sid | _ \<Rightarrow> False)"

text \<open>
  The condition under which \<^verbatim>\<open>manageCompletion\<close> completes an inner stream, stated
  on the pool: every relay is in the state error or terminated, or is ongoing and in
  \<^verbatim>\<open>eoseRelays\<close>. \<open>claimed_completion_condition\<close> is the condition in the words of the
  specification, which counts the state rejected as well.
\<close>

definition completion_condition :: "RxNostrImpl \<Rightarrow> string list \<Rightarrow> bool" where
  "completion_condition s eose =
     list_all (\<lambda>(k, r). socket_state s (websocket r) = Error
                     \<or> socket_state s (websocket r) = Terminated
                     \<or> (socket_state s (websocket r) = Ongoing \<and> k \<in> set eose)) (relays s)"

definition claimed_completion_condition :: "RxNostrImpl \<Rightarrow> string list \<Rightarrow> bool" where
  "claimed_completion_condition s eose =
     list_all (\<lambda>(k, r). socket_state s (websocket r) = Error
                     \<or> socket_state s (websocket r) = Terminated
                     \<or> socket_state s (websocket r) = Rejected
                     \<or> (socket_state s (websocket r) = Ongoing \<and> k \<in> set eose)) (relays s)"

text \<open>The keys of a pool are distinct, and each is the url of its record.\<close>

definition keys_ok :: "(string \<times> RelayState) list \<Rightarrow> bool" where
  "keys_ok m = (distinct (map fst m) \<and> list_all (\<lambda>(k, r). url r = k) m)"

text \<open>
  The invariant of a publication with \<open>W\<close> writable urls: at most \<open>W\<close> packets were
  emitted, every packet emitted or buffered has the id of the signed event, the buffer
  holds at most \<open>max 1 W\<close> packets, and the status of the stream returned agrees with
  the number of packets emitted.
\<close>

definition pub_inv :: "nat \<Rightarrow> Publication \<Rightarrow> bool" where
  "pub_inv W p =
     (length (pub_urls p) = W
      \<and> length (taken p) \<le> W
      \<and> list_all (\<lambda>packet. case pub_event p of None \<Rightarrow> False | Some ev \<Rightarrow> ok_id packet = event_id ev)
           (taken p @ pub_buffer p)
      \<and> length (pub_buffer p) \<le> max 1 W
      \<and> (case pub_status p of
            None \<Rightarrow> taken p = [] \<and> \<not> subject_stopped p \<and> \<not> subject_closed p
          | Some Active \<Rightarrow> length (taken p) < W \<and> \<not> subject_stopped p \<and> \<not> subject_closed p
          | Some Completed \<Rightarrow> length (taken p) = W
          | Some Unsubscribed \<Rightarrow> length (taken p) < W
          | Some Errored \<Rightarrow> False))"

text \<open>
  A client whose pool is the one readable relay \<^verbatim>\<open>ws://localhost:1234\<close>, which holds
  the sub id \<^verbatim>\<open>sub:0\<close> of the forward REQ in the registry.
\<close>

definition example_pool :: RxNostrImpl where
  "example_pool =
     (createRxNostr None None)
       \<lparr>relays := [(''ws://localhost:1234'',
                     \<lparr>url = ''ws://localhost:1234'', read = True, write = True,
                      activeSubIds = 0, websocket = 0\<rparr>)],
        activeReqs := [(''sub:0'', REQ ''sub:0'' [])],
        subIdSets := (\<lambda>_. [])(0 := [''sub:0'']),
        set_count := 1, socket_count := 1\<rparr>"

text \<open>
  A client whose one relay is connected and holds the sub id \<^verbatim>\<open>sub:0\<close> of a backward
  REQ, whose inner stream is running.
\<close>

definition example_backward :: RxNostrImpl where
  "example_backward =
     (createRxNostr None None)
       \<lparr>relays := [(''ws://localhost:1234'',
                     \<lparr>url = ''ws://localhost:1234'', read = True, write = True,
                      activeSubIds = 0, websocket = 0\<rparr>)],
        subIdSets := (\<lambda>_. [])(0 := [''sub:0'']),
        set_count := 1,
        socket_url := (\<lambda>_. [])(0 := ''ws://localhost:1234''),
        socket_state := (\<lambda>_. NotStarted)(0 := Ongoing),
        socket_count := 1,
        eose_streams := [createEoseManagedEventObservable 0 ''sub:0'']\<rparr>"

text \<open>A client with two writable relays, and a signed event.\<close>

definition example_two_relays :: RxNostrImpl where
  "example_two_relays =
     (createRxNostr None None)
       \<lparr>relays := [(''ws://localhost:1234'',
                     \<lparr>url = ''ws://localhost:1234'', read = True, write = True,
                      activeSubIds = 0, websocket = 0\<rparr>),
                   (''ws://localhost:1235'',
                     \<lparr>url = ''ws://localhost:1235'', read = True, write = True,
                      activeSubIds = 1, websocket = 1\<rparr>)],
        set_count := 2,
        socket_url := (\<lambda>_. [])(0 := ''ws://localhost:1234'', 1 := ''ws://localhost:1235''),
        socket_state := (\<lambda>_. Ongoing),
        socket_count := 2\<rparr>"

definition example_event :: Event where
  "example_event =
     \<lparr>event_id = ''e1'', sig = ''s1'', kind = 1, tags = [], pubkey = ''p1'',
      content = ''hello'', created_at = 0\<rparr>"

text \<open>The client of the test suite: created, then \<^verbatim>\<open>setRelays([RELAY_URL])\<close>.\<close>

definition connected :: RxNostrImpl where
  "connected = snd (setRelays Some (RelayArray [Url ''ws://localhost:1234'']) (createRxNostr None None))"

text \<open>
  A forward subscription \<^verbatim>\<open>sub\<close> of that client after its first REQ, with the filter
  \<open>example_filter\<close>; \<open>example_filter_later\<close> is the filter of its second REQ. In
  \<open>example_events\<close> the relay connects, a backward subscription sends a REQ and gets
  its EOSE, another forward subscription sends a REQ, and an EOSE arrives from a
  sender that is not in the pool.
\<close>

definition example_filter :: Filter where
  "example_filter =
     \<lparr>ids = None, kinds = Some [1], authors = None, since = None, until = None,
      limit = None, tag_filters = []\<rparr>"

definition example_filter_later :: Filter where
  "example_filter_later =
     \<lparr>ids = None, kinds = Some [0, 1], authors = None, since = None, until = None,
      limit = Some 10, tag_filters = []\<rparr>"

definition example_forward :: "Subscription \<times> RxNostrImpl" where
  "example_forward = subId_next (Some [example_filter]) (use 0 ''sub'' Forward) connected"

definition example_events :: "client_event list" where
  "example_events =
     [SocketState 0 Ongoing,
      Emit (Some [example_filter]) (use 1 ''back'' Backward),
      Message 0 \<lparr>from = ''ws://localhost:1234'', message = EOSE ''back:0''\<rparr>,
      Emit (Some [example_filter]) (use 2 ''other'' Forward),
      Emit (Some [example_filter]) ((use 1 ''back'' Backward)\<lparr>use_index := 1\<rparr>),
      Message 0 \<lparr>from = ''ws://localhost:9999'', message = EOSE ''back:1''\<rparr>]"

text \<open>
  That client with three inner streams: a backward subscription has sent two REQs,
  \<^verbatim>\<open>sub:0\<close> and \<^verbatim>\<open>sub:1\<close>, and another backward subscription one, \<^verbatim>\<open>other:0\<close>.
\<close>

definition example_inner_streams :: RxNostrImpl where
  "example_inner_streams =
     snd (subId_next (Some [example_filter]) (use 1 ''other'' Backward)
       (snd (subId_next (Some [example_filter_later])
          (fst (subId_next (Some [example_filter]) (use 0 ''sub'' Backward) connected))
          (snd (subId_next (Some [example_filter]) (use 0 ''sub'' Backward) connected)))))"

section \<open>Properties\<close>

subsection \<open>Programmer errors\<close>

text \<open>
  C9. \<^verbatim>\<open>getRelayState(url)\<close> throws for a url that is not a key of the pool, and
  \<^verbatim>\<open>finalizeReq\<close> throws when it is given neither a sub id nor a url; the state at the
  throw is the state of the call, so no relay record has changed and nothing was sent
  (\<open>getRelayState\<close> only reads the state).
\<close>

theorem programmer_errors_are_fatal:
  assumes "u \<notin> set (map_keys (relays s))"
  shows "getRelayState u s = Inl RelayNotFound
       \<and> finalizeReq None None s = (Some FinalizeError, s)"
  using assms
  by (auto simp: getRelayState_def finalizeReq_def map_keys_def map_of_eq_None_iff[symmetric]
           split: option.splits)

theorem programmer_errors_are_fatal_witness:
  "''wss://b'' \<notin> set (map_keys (relays ((createRxNostr None None)
       \<lparr>relays := [(''wss://a'', \<lparr>url = ''wss://a'', read = True, write = True,
                                 activeSubIds = 0, websocket = 0\<rparr>)]\<rparr>)))
   \<and> getRelayState ''wss://b'' ((createRxNostr None None)
       \<lparr>relays := [(''wss://a'', \<lparr>url = ''wss://a'', read = True, write = True,
                                 activeSubIds = 0, websocket = 0\<rparr>)]\<rparr>) = Inl RelayNotFound
   \<and> fst (finalizeReq None None ((createRxNostr None None)
       \<lparr>relays := [(''wss://a'', \<lparr>url = ''wss://a'', read = True, write = True,
                                 activeSubIds = 0, websocket = 0\<rparr>)]\<rparr>)) = Some FinalizeError
   \<and> calls (snd (finalizeReq None None ((createRxNostr None None)
       \<lparr>relays := [(''wss://a'', \<lparr>url = ''wss://a'', read = True, write = True,
                                 activeSubIds = 0, websocket = 0\<rparr>)]\<rparr>))) = []"
  using programmer_errors_are_fatal [of "''wss://b''" "(createRxNostr None None)
       \<lparr>relays := [(''wss://a'', \<lparr>url = ''wss://a'', read = True, write = True,
                                 activeSubIds = 0, websocket = 0\<rparr>)]\<rparr>"]
  by (simp add: map_keys_def createRxNostr_def)

subsection \<open>removeRelay of an unknown url\<close>

text \<open>
  C10. When the url equals, as a string, the url of no relay of the pool,
  \<^verbatim>\<open>removeRelay(url)\<close> does not call \<^verbatim>\<open>setRelays\<close>: the whole state (the relay records,
  their sets of sub ids, the registry of active REQs, the websockets and the sequence of
  calls made on them) is the one before.
\<close>

theorem removeRelay_unknown_url_is_noop:
  assumes "u \<notin> set (map url (getRelays s))"
  shows "removeRelay normalizeUrl u s = (None, s)"
proof -
  from assms have "filter (\<lambda>relay. url relay \<noteq> u) (getRelays s) = getRelays s"
    by (auto simp: filter_id_conv)
  then show ?thesis by (simp add: removeRelay_def Let_def)
qed

theorem removeRelay_unknown_url_is_noop_witness:
  "''wss://a/'' \<notin> set (map url (getRelays ((createRxNostr None None)
       \<lparr>relays := [(''wss://a'', \<lparr>url = ''wss://a'', read = True, write = True,
                                 activeSubIds = 0, websocket = 0\<rparr>)],
         subIdSets := (\<lambda>_. [])(0 := [''sub:0''])\<rparr>)))
   \<and> calls (snd (removeRelay Some ''wss://a/'' ((createRxNostr None None)
       \<lparr>relays := [(''wss://a'', \<lparr>url = ''wss://a'', read = True, write = True,
                                 activeSubIds = 0, websocket = 0\<rparr>)],
         subIdSets := (\<lambda>_. [])(0 := [''sub:0''])\<rparr>))) = []
   \<and> map_keys (relays (snd (removeRelay Some ''wss://a/'' ((createRxNostr None None)
       \<lparr>relays := [(''wss://a'', \<lparr>url = ''wss://a'', read = True, write = True,
                                 activeSubIds = 0, websocket = 0\<rparr>)],
         subIdSets := (\<lambda>_. [])(0 := [''sub:0''])\<rparr>)))) = [''wss://a'']"
  using removeRelay_unknown_url_is_noop [of "''wss://a/''" "(createRxNostr None None)
       \<lparr>relays := [(''wss://a'', \<lparr>url = ''wss://a'', read = True, write = True,
                                 activeSubIds = 0, websocket = 0\<rparr>)],
         subIdSets := (\<lambda>_. [])(0 := [''sub:0''])\<rparr>" Some]
  by (simp add: getRelays_def map_values_def map_keys_def createRxNostr_def)

subsection \<open>The send policy of ensureReq\<close>

lemma ensureReq_loop_calls:
  "ow \<or> distinct (map activeSubIds rs) \<Longrightarrow>
   calls (ensureReq_loop req ow rs s) =
     calls s @ map (\<lambda>r. (websocket r, Send (Req req)))
       (filter (\<lambda>r. read r \<and> (ow \<or> subId_of req \<notin> set (subIdSets s (activeSubIds r)))) rs)"
proof (induction rs arbitrary: s)
  case Nil
  then show ?case by simp
next
  case (Cons r rs)
  show ?case
  proof (cases "\<not> read r \<or> (\<not> ow \<and> subId_of req \<in> set (subIdSets s (activeSubIds r)))")
    case True
    with Cons show ?thesis by auto
  next
    case False
    let ?s' = "activeSubIds_add (activeSubIds r) (subId_of req)
                 (ws_call_on (websocket r) (Send (Req req)) s)"
    have ne: "\<And>r'. r' \<in> set rs \<Longrightarrow> \<not> ow \<Longrightarrow> activeSubIds r' \<noteq> activeSubIds r"
    proof -
      fix r' assume a: "r' \<in> set rs" "\<not> ow"
      with Cons.prems have "activeSubIds r \<notin> activeSubIds ` set rs" by simp
      with a show "activeSubIds r' \<noteq> activeSubIds r" by (metis imageI)
    qed
    have same: "\<And>r'. r' \<in> set rs \<Longrightarrow>
        ow \<or> subIdSets ?s' (activeSubIds r') = subIdSets s (activeSubIds r')"
      using ne by (cases ow) (auto simp: activeSubIds_add_def ws_call_on_def)
    have "filter (\<lambda>r'. read r' \<and> (ow \<or> subId_of req \<notin> set (subIdSets ?s' (activeSubIds r')))) rs
        = filter (\<lambda>r'. read r' \<and> (ow \<or> subId_of req \<notin> set (subIdSets s (activeSubIds r')))) rs"
      by (rule filter_cong) (use same in auto)
    moreover have "calls ?s' = calls s @ [(websocket r, Send (Req req))]"
      by (simp add: activeSubIds_add_def ws_call_on_def)
    ultimately show ?thesis using False Cons by auto
  qed
qed

text \<open>
  C3. The calls that a REQ issued by a subscription adds are exactly one
  \<^verbatim>\<open>send(req)\<close> for each relay of the pool, in the order of the pool, that is readable
  and, unless the strategy is forward, does not hold the sub id in its
  \<^verbatim>\<open>activeSubIds\<close>. So a forward REQ goes to every readable relay whatever its
  \<^verbatim>\<open>activeSubIds\<close>, a backward or oneshot REQ goes to a readable relay only when the sub
  id is not in its \<^verbatim>\<open>activeSubIds\<close>, and a relay that is not readable is sent nothing.
  The relays of the pool own distinct sets, as they do in every state of a client
  (\<open>reachable_pool_inv\<close>).
\<close>

theorem ensureReqOnNext_send_policy:
  assumes "distinct (map activeSubIds (map_values (relays s)))"
  shows "calls (ensureReqOnNext st req s) =
     calls s @ map (\<lambda>r. (websocket r, Send (Req req)))
       (filter (\<lambda>r. read r \<and> (st = Forward \<or> subId_of req \<notin> set (subIdSets s (activeSubIds r))))
          (map_values (relays s)))"
  using assms by (simp add: ensureReqOnNext_def ensureReq_def ensureReq_loop_calls)

theorem ensureReqOnNext_send_policy_witness:
  "distinct (map activeSubIds (map_values (relays ((createRxNostr None None)
       \<lparr>relays := [(''wss://a'', \<lparr>url = ''wss://a'', read = True, write = True,
                                 activeSubIds = 0, websocket = 0\<rparr>),
                    (''wss://b'', \<lparr>url = ''wss://b'', read = True, write = False,
                                 activeSubIds = 1, websocket = 1\<rparr>),
                    (''wss://c'', \<lparr>url = ''wss://c'', read = False, write = True,
                                 activeSubIds = 2, websocket = 2\<rparr>)],
         subIdSets := (\<lambda>_. [])(0 := [''sub:0''])\<rparr>))))
   \<and> calls (ensureReqOnNext Backward (REQ ''sub:0'' []) ((createRxNostr None None)
       \<lparr>relays := [(''wss://a'', \<lparr>url = ''wss://a'', read = True, write = True,
                                 activeSubIds = 0, websocket = 0\<rparr>),
                    (''wss://b'', \<lparr>url = ''wss://b'', read = True, write = False,
                                 activeSubIds = 1, websocket = 1\<rparr>),
                    (''wss://c'', \<lparr>url = ''wss://c'', read = False, write = True,
                                 activeSubIds = 2, websocket = 2\<rparr>)],
         subIdSets := (\<lambda>_. [])(0 := [''sub:0''])\<rparr>))
     = [(1, Send (Req (REQ ''sub:0'' [])))]
   \<and> calls (ensureReqOnNext Forward (REQ ''sub:0'' []) ((createRxNostr None None)
       \<lparr>relays := [(''wss://a'', \<lparr>url = ''wss://a'', read = True, write = True,
                                 activeSubIds = 0, websocket = 0\<rparr>),
                    (''wss://b'', \<lparr>url = ''wss://b'', read = True, write = False,
                                 activeSubIds = 1, websocket = 1\<rparr>),
                    (''wss://c'', \<lparr>url = ''wss://c'', read = False, write = True,
                                 activeSubIds = 2, websocket = 2\<rparr>)],
         subIdSets := (\<lambda>_. [])(0 := [''sub:0''])\<rparr>))
     = [(0, Send (Req (REQ ''sub:0'' []))), (1, Send (Req (REQ ''sub:0'' [])))]"
  using ensureReqOnNext_send_policy [of "(createRxNostr None None)
       \<lparr>relays := [(''wss://a'', \<lparr>url = ''wss://a'', read = True, write = True,
                                 activeSubIds = 0, websocket = 0\<rparr>),
                    (''wss://b'', \<lparr>url = ''wss://b'', read = True, write = False,
                                 activeSubIds = 1, websocket = 1\<rparr>),
                    (''wss://c'', \<lparr>url = ''wss://c'', read = False, write = True,
                                 activeSubIds = 2, websocket = 2\<rparr>)],
         subIdSets := (\<lambda>_. [])(0 := [''sub:0''])\<rparr>" Backward "REQ ''sub:0'' []"]
    ensureReqOnNext_send_policy [of "(createRxNostr None None)
       \<lparr>relays := [(''wss://a'', \<lparr>url = ''wss://a'', read = True, write = True,
                                 activeSubIds = 0, websocket = 0\<rparr>),
                    (''wss://b'', \<lparr>url = ''wss://b'', read = True, write = False,
                                 activeSubIds = 1, websocket = 1\<rparr>),
                    (''wss://c'', \<lparr>url = ''wss://c'', read = False, write = True,
                                 activeSubIds = 2, websocket = 2\<rparr>)],
         subIdSets := (\<lambda>_. [])(0 := [''sub:0''])\<rparr>" Forward "REQ ''sub:0'' []"]
  by (simp add: map_values_def createRxNostr_def)

subsection \<open>Frames of the pool operations\<close>

lemma frame_eq_refl: "frame_eq s s"
  by (simp add: frame_eq_def)

lemma frame_eq_trans: "frame_eq s s' \<Longrightarrow> frame_eq s' s'' \<Longrightarrow> frame_eq s s''"
  by (simp add: frame_eq_def)

lemma frame_eq_fields:
  assumes "frame_eq s s'"
  shows "relays s' = relays s" "activeReqs s' = activeReqs s"
    "message_stopped s' = message_stopped s" "error_stopped s' = error_stopped s"
    "status_stopped s' = status_stopped s" "set_count s' = set_count s"
    "socket_url s' = socket_url s" "socket_state s' = socket_state s"
    "socket_retries s' = socket_retries s" "socket_closed s' = socket_closed s"
    "socket_count s' = socket_count s" "errors_out s' = errors_out s"
    "eose_streams s' = eose_streams s" "options_retry s' = options_retry s"
    "options_timeout s' = options_timeout s"
  using assms by (simp_all add: frame_eq_def)

lemmas prim_defs = ws_call_on_def ws_call_opt_def activeSubIds_add_def activeSubIds_delete_def
  activeSubIds_clear_def

lemma frame_eq_prims:
  "frame_eq s (ws_call_on w c s)" "frame_eq s (ws_call_opt r c s)"
  "frame_eq s (activeSubIds_add a x s)" "frame_eq s (activeSubIds_delete a x s)"
  "frame_eq s (activeSubIds_clear a s)"
  by (simp_all add: frame_eq_def prim_defs split: option.splits)

lemma frame_eq_fold:
  assumes "\<And>x s. frame_eq s (f x s)"
  shows "frame_eq s (fold f xs s)"
proof (induction xs arbitrary: s)
  case Nil show ?case by (simp add: frame_eq_refl)
next
  case (Cons x xs)
  show ?case using frame_eq_trans[OF assms[of s x] Cons[of "f x s"]] by simp
qed

lemma frame_eq_finalize_subId: "frame_eq s (finalize_subId relay sid s)"
  by (simp add: frame_eq_def finalize_subId_def prim_defs)

lemma frame_eq_finalize_relay: "frame_eq s (finalize_relay sid_opt relay s)"
  unfolding finalize_relay_def by (rule frame_eq_fold) (rule frame_eq_finalize_subId)

lemma frame_eq_finalizeReq: "frame_eq s (snd (finalizeReq sid_opt url_opt s))"
proof -
  have "frame_eq s (fold (finalize_relay sid_opt) (map_values (relays s)) s)"
    by (rule frame_eq_fold) (rule frame_eq_finalize_relay)
  then show ?thesis
    by (simp add: finalizeReq_def frame_eq_refl frame_eq_finalize_relay split: option.splits)
qed

lemma frame_eq_ensureReq_loop: "frame_eq s (ensureReq_loop req ow rs s)"
proof (induction rs arbitrary: s)
  case Nil show ?case by (simp add: frame_eq_refl)
next
  case (Cons r rs)
  have "frame_eq s (activeSubIds_add (activeSubIds r) (subId_of req)
                (ws_call_on (websocket r) (Send (Req req)) s))"
    by (simp add: frame_eq_def prim_defs)
  from frame_eq_trans[OF this Cons] show ?case
    by (simp add: Cons)
qed

lemma calls_ext_refl: "calls_ext P s s"
  by (simp add: calls_ext_def)

lemma calls_ext_same: "calls s' = calls s \<Longrightarrow> calls_ext P s s'"
  by (simp add: calls_ext_def)

lemma calls_ext_trans: "calls_ext P s s' \<Longrightarrow> calls_ext P s' s'' \<Longrightarrow> calls_ext P s s''"
  by (auto simp: calls_ext_def)

lemma calls_ext_mono: "calls_ext P s s' \<Longrightarrow> (\<And>c. P c \<Longrightarrow> Q c) \<Longrightarrow> calls_ext Q s s'"
  by (auto simp: calls_ext_def list_all_iff)

lemma calls_ext_fold:
  assumes "\<And>x s. calls_ext P s (f x s)"
  shows "calls_ext P s (fold f xs s)"
proof (induction xs arbitrary: s)
  case Nil show ?case by (simp add: calls_ext_refl)
next
  case (Cons x xs)
  show ?case using calls_ext_trans[OF assms[of s x] Cons[of "f x s"]] by simp
qed

lemma calls_ext_ws_call_on: "P (w, c) \<Longrightarrow> calls_ext P s (ws_call_on w c s)"
  by (simp add: calls_ext_def ws_call_on_def)

lemma calls_ext_ws_call_opt: "(\<And>w. P (w, c)) \<Longrightarrow> calls_ext P s (ws_call_opt r c s)"
  by (simp add: calls_ext_def ws_call_opt_def ws_call_on_def split: option.splits)

lemma calls_ext_finalize_subId: "calls_ext is_CLOSE_call s (finalize_subId relay sid s)"
  by (simp add: calls_ext_def finalize_subId_def prim_defs is_CLOSE_call_def)

lemma calls_ext_finalize_relay: "calls_ext is_CLOSE_call s (finalize_relay sid_opt relay s)"
  unfolding finalize_relay_def by (rule calls_ext_fold) (rule calls_ext_finalize_subId)

lemma calls_ext_finalizeReq: "calls_ext is_CLOSE_call s (snd (finalizeReq sid_opt url_opt s))"
proof -
  have "calls_ext is_CLOSE_call s (fold (finalize_relay sid_opt) (map_values (relays s)) s)"
    by (rule calls_ext_fold) (rule calls_ext_finalize_relay)
  then show ?thesis
    by (simp add: finalizeReq_def calls_ext_refl calls_ext_finalize_relay split: option.splits)
qed

lemma calls_ext_stop_loop:
  "calls_ext (\<lambda>c. is_CLOSE_call c \<or> snd c = Stop) s (snd (stop_loop us s))"
proof (induction us arbitrary: s)
  case Nil show ?case by (simp add: calls_ext_refl)
next
  case (Cons u us)
  obtain e s' where fr: "finalizeReq None (Some u) s = (e, s')" by (cases "finalizeReq None (Some u) s")
  have a: "calls_ext (\<lambda>c. is_CLOSE_call c \<or> snd c = Stop) s s'"
    using calls_ext_finalizeReq[of s None "Some u"] fr by (auto intro: calls_ext_mono)
  show ?case
  proof (cases e)
    case (Some err)
    then show ?thesis using fr a by simp
  next
    case None
    have b: "calls_ext (\<lambda>c. is_CLOSE_call c \<or> snd c = Stop) s' (ws_call_opt (map_of (relays s') u) Stop s')"
      by (rule calls_ext_ws_call_opt) simp
    show ?thesis using fr None calls_ext_trans[OF a calls_ext_trans[OF b Cons]] by simp
  qed
qed

lemma calls_ext_start_loop: "calls_ext (\<lambda>c. snd c = Start) s (start_loop nxt us s)"
  unfolding start_loop_def by (rule calls_ext_fold) (rule calls_ext_ws_call_opt, simp)

lemma calls_ext_dispose_loop: "calls_ext (\<lambda>c. snd c = Dispose) s (dispose_loop us s)"
  unfolding dispose_loop_def by (rule calls_ext_fold) (rule calls_ext_ws_call_opt, simp)

lemma calls_ext_ensureReq_loop: "calls_ext is_REQ_call s (ensureReq_loop req ow rs s)"
proof (induction rs arbitrary: s)
  case Nil show ?case by (simp add: calls_ext_refl)
next
  case (Cons r rs)
  have "calls_ext is_REQ_call s (activeSubIds_add (activeSubIds r) (subId_of req)
                (ws_call_on (websocket r) (Send (Req req)) s))"
    by (simp add: calls_ext_def prim_defs is_REQ_call_def)
  from calls_ext_trans[OF this Cons] show ?case by (simp add: Cons)
qed

lemma calls_ext_req_loop: "calls_ext is_REQ_call s (snd (req_loop nxt us s))"
proof -
  have "\<And>rs. calls_ext is_REQ_call s (fold (\<lambda>req. ensureReq req (Some rs) None) (map_values (activeReqs s)) s)"
    by (rule calls_ext_fold) (simp add: ensureReq_def calls_ext_ensureReq_loop)
  then show ?thesis by (simp add: req_loop_def calls_ext_refl split: option.splits)
qed

lemma alloc_ext_refl: "alloc_ext s s"
  by (auto simp: alloc_ext_def)

lemma alloc_ext_trans: "alloc_ext s s' \<Longrightarrow> alloc_ext s' s'' \<Longrightarrow> alloc_ext s s''"
  unfolding alloc_ext_def
  by (intro conjI allI impI; (simp; fail)?) (metis le_trans less_le_trans not_le)+

lemma alloc_ext_next_entry: "alloc_ext s (snd (next_entry prev relay s))"
  by (auto simp: alloc_ext_def next_entry_def createWebsocket_def new_Set_def split: option.splits)

lemma alloc_ext_loop: "alloc_ext s (snd (getNextRelayState_loop prev rs nxt s))"
proof (induction rs arbitrary: nxt s)
  case Nil show ?case by (simp add: alloc_ext_refl)
next
  case (Cons r rs)
  show ?case using alloc_ext_trans[OF alloc_ext_next_entry Cons] by simp
qed

lemma next_inv_entry:
  assumes "next_inv prev s0 nxt s" "map_of nxt k = Some r"
  shows "url r = k"
    and "map_of prev k = None \<Longrightarrow> set_count s0 \<le> activeSubIds r \<and> activeSubIds r < set_count s
           \<and> socket_count s0 \<le> websocket r \<and> websocket r < socket_count s"
    and "map_of prev k = Some p \<Longrightarrow> activeSubIds r = activeSubIds p \<and> websocket r = websocket p"
proof -
  from assms(1) have "\<forall>k r. map_of nxt k = Some r \<longrightarrow> url r = k
            \<and> (case map_of prev k of
                   Some p \<Rightarrow> activeSubIds r = activeSubIds p \<and> websocket r = websocket p
                 | None \<Rightarrow> set_count s0 \<le> activeSubIds r \<and> activeSubIds r < set_count s
                          \<and> socket_count s0 \<le> websocket r \<and> websocket r < socket_count s)"
    unfolding next_inv_def by blast
  from this[rule_format, OF assms(2)]
  show "url r = k"
    and "map_of prev k = None \<Longrightarrow> set_count s0 \<le> activeSubIds r \<and> activeSubIds r < set_count s
           \<and> socket_count s0 \<le> websocket r \<and> websocket r < socket_count s"
    and "map_of prev k = Some p \<Longrightarrow> activeSubIds r = activeSubIds p \<and> websocket r = websocket p"
    by simp_all
qed

lemma next_inv_inj:
  assumes "next_inv prev s0 nxt s" "map_of nxt k = Some r" "map_of nxt k' = Some r'" "k \<noteq> k'"
  shows "activeSubIds r \<noteq> activeSubIds r' \<and> websocket r \<noteq> websocket r'"
  using assms unfolding next_inv_def by blast

lemma next_inv_counts:
  assumes "next_inv prev s0 nxt s"
  shows "set_count s0 \<le> set_count s" "socket_count s0 \<le> socket_count s" "distinct (map fst nxt)"
  using assms unfolding next_inv_def by blast+

lemma prev_ok_bound:
  assumes "prev_ok prev s0" "map_of prev k = Some p"
  shows "activeSubIds p < set_count s0" "websocket p < socket_count s0"
  using assms unfolding prev_ok_def by blast+

lemma prev_ok_inj:
  assumes "prev_ok prev s0" "map_of prev k = Some p" "map_of prev k' = Some p'" "k \<noteq> k'"
  shows "activeSubIds p \<noteq> activeSubIds p' \<and> websocket p \<noteq> websocket p'"
  using assms unfolding prev_ok_def by blast

lemma next_inv_old_bound:
  assumes p: "prev_ok prev s0" and n: "next_inv prev s0 nxt s" and a: "map_of nxt k = Some r'"
  shows "activeSubIds r' < set_count s \<and> websocket r' < socket_count s"
proof (cases "map_of prev k")
  case None
  from next_inv_entry(2)[OF n a None] show ?thesis by simp
next
  case (Some p')
  from next_inv_entry(3)[OF n a Some] prev_ok_bound[OF p Some] next_inv_counts(1,2)[OF n]
  show ?thesis by simp
qed

lemma next_inv_step:
  assumes p: "prev_ok prev s0" and n: "next_inv prev s0 nxt s"
  shows "next_inv prev s0 (AList.update (url relay) (fst (next_entry prev relay s)) nxt)
           (snd (next_entry prev relay s))"
proof -
  let ?r = "fst (next_entry prev relay s)"
  let ?s = "snd (next_entry prev relay s)"
  let ?nxt = "AList.update (url relay) ?r nxt"
  have mo: "\<And>k. map_of ?nxt k = (if k = url relay then Some ?r else map_of nxt k)"
    by (simp add: update_conv')
  have ru: "url ?r = url relay"
    by (simp add: next_entry_def split: option.splits)
  have cs: "set_count s \<le> set_count ?s" "socket_count s \<le> socket_count ?s"
    using alloc_ext_next_entry[of s prev relay] by (simp_all add: alloc_ext_def)
  have rnew_None: "map_of prev (url relay) = None \<Longrightarrow>
      activeSubIds ?r = set_count s \<and> websocket ?r = socket_count s
      \<and> set_count ?s = Suc (set_count s) \<and> socket_count ?s = Suc (socket_count s)"
    by (simp add: next_entry_def createWebsocket_def new_Set_def)
  have rnew_Some: "\<And>p0. map_of prev (url relay) = Some p0 \<Longrightarrow>
      activeSubIds ?r = activeSubIds p0 \<and> websocket ?r = websocket p0"
    by (simp add: next_entry_def)
  have differ: "\<And>k r'. map_of nxt k = Some r' \<Longrightarrow> k \<noteq> url relay \<Longrightarrow>
       activeSubIds r' \<noteq> activeSubIds ?r \<and> websocket r' \<noteq> websocket ?r"
  proof -
    fix k r' assume a: "map_of nxt k = Some r'" "k \<noteq> url relay"
    show "activeSubIds r' \<noteq> activeSubIds ?r \<and> websocket r' \<noteq> websocket ?r"
    proof (cases "map_of prev (url relay)")
      case None
      from next_inv_old_bound[OF p n a(1)] rnew_None[OF None] show ?thesis by simp
    next
      case (Some p0)
      show ?thesis
      proof (cases "map_of prev k")
        case None
        from next_inv_entry(2)[OF n a(1) None] prev_ok_bound[OF p Some] rnew_Some[OF Some]
        show ?thesis by simp
      next
        case (Some p')
        from next_inv_entry(3)[OF n a(1) Some] prev_ok_inj[OF p Some \<open>map_of prev (url relay) = Some p0\<close> a(2)]
          rnew_Some[OF \<open>map_of prev (url relay) = Some p0\<close>]
        show ?thesis by simp
      qed
    qed
  qed
  show ?thesis
    unfolding next_inv_def
  proof (intro conjI allI impI)
    show "distinct (map fst ?nxt)"
      using next_inv_counts(3)[OF n] by (simp add: distinct_update)
    show "set_count s0 \<le> set_count ?s" "socket_count s0 \<le> socket_count ?s"
      using next_inv_counts(1,2)[OF n] cs by simp_all
  next
    fix k r' assume a: "map_of ?nxt k = Some r'"
    show "url r' = k"
    proof (cases "k = url relay")
      case True with a mo ru show ?thesis by simp
    next
      case False with a mo have "map_of nxt k = Some r'" by simp
      from next_inv_entry(1)[OF n this] show ?thesis .
    qed
    show "case map_of prev k of
            None \<Rightarrow> set_count s0 \<le> activeSubIds r' \<and> activeSubIds r' < set_count ?s
                   \<and> socket_count s0 \<le> websocket r' \<and> websocket r' < socket_count ?s
          | Some p \<Rightarrow> activeSubIds r' = activeSubIds p \<and> websocket r' = websocket p"
    proof (cases "k = url relay")
      case True
      with a mo have e: "r' = ?r" by simp
      show ?thesis
      proof (cases "map_of prev (url relay)")
        case None
        with rnew_None[OF None] next_inv_counts(1,2)[OF n] True e show ?thesis by simp
      next
        case (Some p0)
        with rnew_Some[OF Some] True e show ?thesis by simp
      qed
    next
      case False
      with a mo have m: "map_of nxt k = Some r'" by simp
      show ?thesis
      proof (cases "map_of prev k")
        case None
        from next_inv_entry(2)[OF n m None] cs None show ?thesis by simp
      next
        case (Some p')
        from next_inv_entry(3)[OF n m Some] Some show ?thesis by simp
      qed
    qed
  next
    fix k r1 k' r2
    assume a: "map_of ?nxt k = Some r1 \<and> map_of ?nxt k' = Some r2 \<and> k \<noteq> k'"
    have "activeSubIds r1 \<noteq> activeSubIds r2 \<and> websocket r1 \<noteq> websocket r2"
    proof (cases "k = url relay")
      case True
      with a mo have "r1 = ?r" "map_of nxt k' = Some r2" "k' \<noteq> url relay" by auto
      with differ[of k' r2] show ?thesis by auto
    next
      case False
      note kf = this
      show ?thesis
      proof (cases "k' = url relay")
        case True
        with a mo kf have "r2 = ?r" "map_of nxt k = Some r1" by auto
        with differ[of k r1] kf show ?thesis by auto
      next
        case False
        with a mo kf have "map_of nxt k = Some r1" "map_of nxt k' = Some r2" "k \<noteq> k'" by auto
        from next_inv_inj[OF n this] show ?thesis .
      qed
    qed
    then show "activeSubIds r1 \<noteq> activeSubIds r2" "websocket r1 \<noteq> websocket r2" by simp_all
  qed
qed

lemma next_inv_loop:
  assumes p: "prev_ok prev s0"
  shows "next_inv prev s0 nxt s \<Longrightarrow>
     next_inv prev s0 (fst (getNextRelayState_loop prev rs nxt s))
       (snd (getNextRelayState_loop prev rs nxt s))"
proof (induction rs arbitrary: nxt s)
  case Nil then show ?case by simp
next
  case (Cons r rs)
  show ?case using Cons.IH[OF next_inv_step[OF p Cons.prems]] by simp
qed

lemma loop_keys:
  "fst ` set (fst (getNextRelayState_loop prev rs nxt s)) = fst ` set nxt \<union> url ` set rs"
  by (induction rs arbitrary: nxt s) (auto simp: dom_update)

lemma setRelays_phases:
  "\<exists>s1 s2. alloc_ext s s1
     \<and> calls_ext (\<lambda>c. is_CLOSE_call c \<or> snd c = Stop) s1 s2
     \<and> calls_ext (\<lambda>c. snd c = Start \<or> is_REQ_call c \<or> snd c = Dispose) s2
           (snd (setRelays normalizeUrl input s))"
proof (cases "getNextRelayState normalizeUrl (relays s) input s")
  case None
  then have "snd (setRelays normalizeUrl input s) = s" by (simp add: setRelays_def)
  then have "alloc_ext s s \<and> calls_ext (\<lambda>c. is_CLOSE_call c \<or> snd c = Stop) s s
     \<and> calls_ext (\<lambda>c. snd c = Start \<or> is_REQ_call c \<or> snd c = Dispose) s
           (snd (setRelays normalizeUrl input s))"
    by (simp add: alloc_ext_refl calls_ext_refl)
  then show ?thesis by blast
next
  case (Some a)
  obtain nxt s1 where a: "a = (nxt, s1)" by (cases a)
  let ?PA = "\<lambda>c. is_CLOSE_call c \<or> snd c = Stop"
  let ?PB = "\<lambda>c. snd c = Start \<or> is_REQ_call c \<or> snd c = Dispose"
  let ?toRead = "subtract (getReadableUrls (Some (map_values nxt)) s1) (getReadableUrls None s1)"
  let ?noRead = "subtract (getReadableUrls None s1) (getReadableUrls (Some (map_values nxt)) s1)"
  from Some a obtain rs where rs: "getNextRelayState_loop (relays s) rs [] s = (nxt, s1)"
    by (auto simp: getNextRelayState_def split: option.splits)
  have al: "alloc_ext s s1"
    using alloc_ext_loop[of s "relays s" rs "[]"] rs by simp
  obtain e2 s2 where st: "stop_loop ?noRead s1 = (e2, s2)" by (cases "stop_loop ?noRead s1")
  have A: "calls_ext ?PA s1 s2" using calls_ext_stop_loop[of s1 ?noRead] st by simp
  let ?s2' = "start_loop nxt ?toRead s2"
  have B1: "calls_ext ?PB s2 ?s2'"
    by (rule calls_ext_mono[OF calls_ext_start_loop]) simp
  obtain e3 s3 where r1: "req_loop nxt ?toRead ?s2' = (e3, s3)" by (cases "req_loop nxt ?toRead ?s2'")
  have B2: "calls_ext ?PB ?s2' s3"
    using calls_ext_mono[OF calls_ext_req_loop[of ?s2' nxt ?toRead], of ?PB] r1 by simp
  obtain e4 s4 where r2: "req_loop nxt ?toRead s3 = (e4, s4)" by (cases "req_loop nxt ?toRead s3")
  have B3: "calls_ext ?PB s3 s4"
    using calls_ext_mono[OF calls_ext_req_loop[of s3 nxt ?toRead], of ?PB] r2 by simp
  let ?s5 = "dispose_loop (subtract (map_keys (relays s4)) (map_keys nxt)) s4"
  have B4: "calls_ext ?PB s4 (?s5\<lparr>relays := nxt\<rparr>)"
    using calls_ext_mono[OF calls_ext_dispose_loop[of s4 "subtract (map_keys (relays s4)) (map_keys nxt)"], of ?PB]
    by (simp add: calls_ext_def)
  have "calls_ext ?PB s2 (snd (setRelays normalizeUrl input s))"
  proof (cases e2)
    case (Some err)
    then show ?thesis using Some a st \<open>getNextRelayState normalizeUrl (relays s) input s = Some a\<close>
      by (simp add: setRelays_def Let_def calls_ext_refl)
  next
    case None
    note e2n = this
    show ?thesis
    proof (cases e3)
      case (Some err)
      then show ?thesis using e2n a st r1 \<open>getNextRelayState normalizeUrl (relays s) input s = Some a\<close>
          calls_ext_trans[OF B1 B2]
        by (simp add: setRelays_def Let_def)
    next
      case None
      note e3n = this
      show ?thesis
      proof (cases e4)
        case (Some err)
        then show ?thesis using e2n e3n a st r1 r2 \<open>getNextRelayState normalizeUrl (relays s) input s = Some a\<close>
            calls_ext_trans[OF calls_ext_trans[OF B1 B2] B3]
          by (simp add: setRelays_def Let_def)
      next
        case None
        then show ?thesis using e2n e3n a st r1 r2 \<open>getNextRelayState normalizeUrl (relays s) input s = Some a\<close>
            calls_ext_trans[OF calls_ext_trans[OF calls_ext_trans[OF B1 B2] B3] B4]
          by (simp add: setRelays_def Let_def)
      qed
    qed
  qed
  with al A show ?thesis by blast
qed

lemma setRelays_calls_split:
  "\<exists>A B. calls (snd (setRelays normalizeUrl input s)) = calls s @ A @ B
     \<and> list_all (\<lambda>c. is_CLOSE_call c \<or> snd c = Stop) A
     \<and> list_all (\<lambda>c. snd c = Start \<or> is_REQ_call c \<or> snd c = Dispose) B"
proof -
  from setRelays_phases[of s normalizeUrl input] obtain s1 s2 where
    a: "alloc_ext s s1" and b: "calls_ext (\<lambda>c. is_CLOSE_call c \<or> snd c = Stop) s1 s2"
    and c: "calls_ext (\<lambda>c. snd c = Start \<or> is_REQ_call c \<or> snd c = Dispose) s2
           (snd (setRelays normalizeUrl input s))" by blast
  from a have e: "calls s1 = calls s" by (simp add: alloc_ext_def)
  from b obtain A where A: "calls s2 = calls s1 @ A" "list_all (\<lambda>c. is_CLOSE_call c \<or> snd c = Stop) A"
    unfolding calls_ext_def by blast
  from c obtain B where B: "calls (snd (setRelays normalizeUrl input s)) = calls s2 @ B"
    "list_all (\<lambda>c. snd c = Start \<or> is_REQ_call c \<or> snd c = Dispose) B"
    unfolding calls_ext_def by blast
  from e A B have "calls (snd (setRelays normalizeUrl input s)) = calls s @ A @ B
     \<and> list_all (\<lambda>c. is_CLOSE_call c \<or> snd c = Stop) A
     \<and> list_all (\<lambda>c. snd c = Start \<or> is_REQ_call c \<or> snd c = Dispose) B" by simp
  then show ?thesis by blast
qed

lemmas eval_defs = setRelays_def getNextRelayState_def input_relays_def normalizeRelay_def
  next_entry_def createWebsocket_def new_Set_def getReadableUrls_def getWritableUrls_def subtract_def
  map_values_def map_keys_def finalizeReq_def finalize_relay_def finalize_subId_def truthy_def
  prim_defs start_loop_def req_loop_def ensureReq_def dispose_loop_def Let_def createRxNostr_def
  set_add_def

subsection \<open>The order of CLOSE and REQ in a pool transition\<close>

text \<open>
  C8. In the calls that one \<^verbatim>\<open>setRelays\<close> (or \<^verbatim>\<open>switchRelays\<close>) makes on websockets,
  every CLOSE frame is sent before every REQ frame: a CLOSE is only sent by the loop
  over the urls no longer read, a REQ only by the loops over the active REQs, which
  come later. This is the order of the client's own sequence of sends, whatever the
  websockets; it holds also when the call throws.
\<close>

theorem setRelays_close_before_req:
  assumes "calls (snd (setRelays normalizeUrl input s)) = calls s @ new"
      and "i < length new" "is_REQ_call (new ! i)"
      and "j < length new" "is_CLOSE_call (new ! j)"
  shows "j < i"
proof -
  from setRelays_calls_split[of normalizeUrl input s] assms(1) obtain A B where
    n: "new = A @ B" and A: "list_all (\<lambda>c. is_CLOSE_call c \<or> snd c = Stop) A"
    and B: "list_all (\<lambda>c. snd c = Start \<or> is_REQ_call c \<or> snd c = Dispose) B" by auto
  have iB: "\<not> i < length A"
  proof
    assume "i < length A"
    with A n have "is_CLOSE_call (new ! i) \<or> snd (new ! i) = Stop"
      by (simp add: list_all_length nth_append)
    with assms(3) show False by (auto simp: is_REQ_call_def is_CLOSE_call_def split: ws_call.splits OutgoingMessage.splits)
  qed
  have jA: "j < length A"
  proof (rule ccontr)
    assume "\<not> j < length A"
    with B n assms(4) have "snd (new ! j) = Start \<or> is_REQ_call (new ! j) \<or> snd (new ! j) = Dispose"
      by (simp add: list_all_length nth_append)
    with assms(5) show False by (auto simp: is_REQ_call_def is_CLOSE_call_def split: ws_call.splits OutgoingMessage.splits)
  qed
  from iB jA show ?thesis by simp
qed

theorem setRelays_close_before_req_witness:
  "calls (snd (setRelays Some (RelayArray [Url ''ws://localhost:1235'']) example_pool)) =
     calls example_pool @
       [(0, Send (CLOSE ''sub:0'')), (0, Stop), (1, Start),
        (1, Send (Req (REQ ''sub:0'' []))), (0, Dispose)]
   \<and> 3 < length [(0::nat, Send (CLOSE ''sub:0'')), (0, Stop), (1, Start),
        (1, Send (Req (REQ ''sub:0'' []))), (0, Dispose)]
   \<and> is_REQ_call ([(0, Send (CLOSE ''sub:0'')), (0, Stop), (1, Start),
        (1, Send (Req (REQ ''sub:0'' []))), (0, Dispose)] ! 3)
   \<and> 0 < length [(0::nat, Send (CLOSE ''sub:0'')), (0, Stop), (1, Start),
        (1, Send (Req (REQ ''sub:0'' []))), (0, Dispose)]
   \<and> is_CLOSE_call ([(0, Send (CLOSE ''sub:0'')), (0, Stop), (1, Start),
        (1, Send (Req (REQ ''sub:0'' []))), (0, Dispose)] ! 0)
   \<and> (0::nat) < 3"
proof -
  have e: "calls (snd (setRelays Some (RelayArray [Url ''ws://localhost:1235'']) example_pool)) =
     calls example_pool @
       [(0, Send (CLOSE ''sub:0'')), (0, Stop), (1, Start),
        (1, Send (Req (REQ ''sub:0'' []))), (0, Dispose)]"
    by (auto simp: example_pool_def eval_defs)
  have "(0::nat) < 3"
    by (rule setRelays_close_before_req[OF e, of 3 0])
       (simp_all add: is_REQ_call_def is_CLOSE_call_def)
  with e show ?thesis by (simp add: is_REQ_call_def is_CLOSE_call_def)
qed

subsection \<open>Relays that become readable\<close>

lemma filter_unique:
  "distinct (map f xs) \<Longrightarrow> x \<in> set xs \<Longrightarrow> filter (\<lambda>y. f y = f x) xs = [x]"
proof (induction xs)
  case Nil then show ?case by simp
next
  case (Cons a xs)
  show ?case
  proof (cases "a = x")
    case True
    with Cons.prems have "f x \<notin> f ` set xs" by simp
    then have "filter (\<lambda>y. f y = f x) xs = []" unfolding filter_empty_conv by (metis imageI)
    with True show ?thesis by simp
  next
    case False
    with Cons.prems have "x \<in> set xs" "f a \<noteq> f x" by auto
    with Cons show ?thesis by simp
  qed
qed

lemma set_add_set: "set (set_add x xs) = insert x (set xs)"
  by (auto simp: set_add_def)

lemma ensureReq_loop_sets:
  "subIdSets (ensureReq_loop req ow rs s) a =
     (if a \<in> activeSubIds ` {r \<in> set rs. read r} then set_add (subId_of req) (subIdSets s a)
      else subIdSets s a)"
proof (induction rs arbitrary: s)
  case Nil then show ?case by simp
next
  case (Cons r rs)
  show ?case
  proof (cases "\<not> read r \<or> (\<not> ow \<and> subId_of req \<in> set (subIdSets s (activeSubIds r)))")
    case True
    then show ?thesis using Cons[of s] by (auto simp: set_add_def)
  next
    case False
    let ?s' = "activeSubIds_add (activeSubIds r) (subId_of req)
                 (ws_call_on (websocket r) (Send (Req req)) s)"
    have h: "subIdSets ?s' = (subIdSets s)(activeSubIds r := set_add (subId_of req) (subIdSets s (activeSubIds r)))"
      by (simp add: prim_defs)
    have idem: "\<And>xs. set_add (subId_of req) (set_add (subId_of req) xs) = set_add (subId_of req) xs"
      by (simp add: set_add_def)
    from False have "ensureReq_loop req ow (r # rs) s = ensureReq_loop req ow rs ?s'" by auto
    then show ?thesis using Cons[of ?s'] False h idem by auto
  qed
qed

lemma ensureReq_loop_noop:
  assumes "\<And>r. r \<in> set rs \<Longrightarrow> \<not> read r \<or> subId_of req \<in> set (subIdSets s (activeSubIds r))"
  shows "ensureReq_loop req False rs s = s"
  using assms by (induction rs) auto

text \<open>The first pass over the registry.\<close>

lemma req_pass1:
  assumes "distinct (map activeSubIds rs)" "\<And>r. r \<in> set rs \<Longrightarrow> read r"
  shows "distinct (map subId_of reqs) \<Longrightarrow>
     (\<And>r q. r \<in> set rs \<Longrightarrow> q \<in> set reqs \<Longrightarrow> subId_of q \<notin> set (subIdSets s (activeSubIds r))) \<Longrightarrow>
     calls (fold (\<lambda>req. ensureReq req (Some rs) None) reqs s) =
       calls s @ concat (map (\<lambda>q. map (\<lambda>r. (websocket r, Send (Req q))) rs) reqs)
     \<and> (\<forall>r\<in>set rs. set (subIdSets (fold (\<lambda>req. ensureReq req (Some rs) None) reqs s) (activeSubIds r)) =
           set (subIdSets s (activeSubIds r)) \<union> subId_of ` set reqs)
     \<and> (\<forall>a. a \<notin> activeSubIds ` set rs \<longrightarrow>
           subIdSets (fold (\<lambda>req. ensureReq req (Some rs) None) reqs s) a = subIdSets s a)"
proof (induction reqs arbitrary: s)
  case Nil then show ?case by simp
next
  case (Cons q reqs)
  let ?s' = "ensureReq q (Some rs) None s"
  have all: "filter (\<lambda>r. read r \<and> (False \<or> subId_of q \<notin> set (subIdSets s (activeSubIds r)))) rs = rs"
    using assms(2) Cons.prems(2) by (auto simp: filter_id_conv)
  have c: "calls ?s' = calls s @ map (\<lambda>r. (websocket r, Send (Req q))) rs"
    using ensureReq_loop_calls[of False rs q s] assms(1) all by (simp add: ensureReq_def)
  have rd: "{r \<in> set rs. read r} = set rs" using assms(2) by auto
  have st: "\<And>a. subIdSets ?s' a = (if a \<in> activeSubIds ` set rs then set_add (subId_of q) (subIdSets s a) else subIdSets s a)"
    using ensureReq_loop_sets[of q False rs s] rd by (simp add: ensureReq_def)
  have pre: "\<And>r q'. r \<in> set rs \<Longrightarrow> q' \<in> set reqs \<Longrightarrow> subId_of q' \<notin> set (subIdSets ?s' (activeSubIds r))"
  proof -
    fix r q' assume a: "r \<in> set rs" "q' \<in> set reqs"
    with Cons.prems(1) have "subId_of q' \<noteq> subId_of q" by (metis distinct.simps(2) imageI list.simps(9) set_map)
    moreover from a Cons.prems(2) have "subId_of q' \<notin> set (subIdSets s (activeSubIds r))" by simp
    ultimately show "subId_of q' \<notin> set (subIdSets ?s' (activeSubIds r))"
      using a st by (simp add: set_add_set)
  qed
  from Cons.prems(1) have d: "distinct (map subId_of reqs)" by simp
  note IH = Cons.IH[OF d pre]
  show ?case
  proof (intro conjI ballI allI impI)
    show "calls (fold (\<lambda>req. ensureReq req (Some rs) None) (q # reqs) s) =
       calls s @ concat (map (\<lambda>q. map (\<lambda>r. (websocket r, Send (Req q))) rs) (q # reqs))"
      using IH c by simp
  next
    fix r assume "r \<in> set rs"
    with IH st show "set (subIdSets (fold (\<lambda>req. ensureReq req (Some rs) None) (q # reqs) s) (activeSubIds r)) =
           set (subIdSets s (activeSubIds r)) \<union> subId_of ` set (q # reqs)"
      by (auto simp: set_add_set)
  next
    fix a assume "a \<notin> activeSubIds ` set rs"
    with IH st show "subIdSets (fold (\<lambda>req. ensureReq req (Some rs) None) (q # reqs) s) a = subIdSets s a"
      by simp
  qed
qed

lemma req_pass2:
  assumes "\<And>r q. r \<in> set rs \<Longrightarrow> q \<in> set reqs \<Longrightarrow> subId_of q \<in> set (subIdSets s (activeSubIds r))"
  shows "fold (\<lambda>req. ensureReq req (Some rs) None) reqs s = s"
  using assms
proof (induction reqs)
  case Nil then show ?case by simp
next
  case (Cons q reqs)
  have "ensureReq q (Some rs) None s = s"
    using Cons.prems by (simp add: ensureReq_def ensureReq_loop_noop)
  with Cons show ?case by simp
qed

lemma fold_keep:
  assumes "\<And>x s. g (f x s) = g s"
  shows "g (fold f xs s) = g s"
  by (induction xs arbitrary: s) (simp_all add: assms)

lemma subIdSets_ws_call_opt: "subIdSets (ws_call_opt r c s) = subIdSets s"
  by (simp add: prim_defs split: option.splits)

lemma subIdSets_start_loop: "subIdSets (start_loop nxt us s) = subIdSets s"
  unfolding start_loop_def by (rule fold_keep) (rule subIdSets_ws_call_opt)

lemma subIdSets_dispose_loop: "subIdSets (dispose_loop us s) = subIdSets s"
  unfolding dispose_loop_def by (rule fold_keep) (rule subIdSets_ws_call_opt)

lemma frame_eq_start_loop: "frame_eq s (start_loop nxt us s)"
  unfolding start_loop_def by (rule frame_eq_fold) (rule frame_eq_prims)

lemma frame_eq_dispose_loop: "frame_eq s (dispose_loop us s)"
  unfolding dispose_loop_def by (rule frame_eq_fold) (rule frame_eq_prims)

lemma frame_eq_ensureReq: "frame_eq s (ensureReq req rs ow s)"
  by (simp add: ensureReq_def frame_eq_ensureReq_loop)

lemma frame_eq_req_loop: "frame_eq s (snd (req_loop nxt us s))"
proof -
  have "\<And>rs. frame_eq s (fold (\<lambda>req. ensureReq req (Some rs) None) (map_values (activeReqs s)) s)"
    by (rule frame_eq_fold) (rule frame_eq_ensureReq)
  then show ?thesis by (simp add: req_loop_def frame_eq_refl split: option.splits)
qed

lemma frame_eq_stop_loop: "frame_eq s (snd (stop_loop us s))"
proof (induction us arbitrary: s)
  case Nil show ?case by (simp add: frame_eq_refl)
next
  case (Cons u us)
  obtain e s' where fr: "finalizeReq None (Some u) s = (e, s')" by (cases "finalizeReq None (Some u) s")
  have a: "frame_eq s s'" using frame_eq_finalizeReq[of s None "Some u"] fr by simp
  show ?case
  proof (cases e)
    case (Some err) then show ?thesis using fr a by simp
  next
    case None
    have b: "frame_eq s' (ws_call_opt (map_of (relays s') u) Stop s')" by (rule frame_eq_prims)
    show ?thesis using fr None frame_eq_trans[OF a frame_eq_trans[OF b Cons]] by simp
  qed
qed

lemma sets_shrink_refl: "sets_shrink s s"
  by (simp add: sets_shrink_def)

lemma sets_shrink_same: "subIdSets s' = subIdSets s \<Longrightarrow> sets_shrink s s'"
  by (simp add: sets_shrink_def)

lemma sets_shrink_trans: "sets_shrink s s' \<Longrightarrow> sets_shrink s' s'' \<Longrightarrow> sets_shrink s s''"
  unfolding sets_shrink_def by (meson subset_trans)

lemma sets_shrink_fold:
  assumes "\<And>x s. sets_shrink s (f x s)"
  shows "sets_shrink s (fold f xs s)"
proof (induction xs arbitrary: s)
  case Nil show ?case by (simp add: sets_shrink_refl)
next
  case (Cons x xs)
  show ?case using sets_shrink_trans[OF assms[of s x] Cons[of "f x s"]] by simp
qed

lemma sets_shrink_finalize_subId: "sets_shrink s (finalize_subId relay sid s)"
  by (auto simp: sets_shrink_def finalize_subId_def prim_defs)

lemma sets_shrink_finalize_relay: "sets_shrink s (finalize_relay sid_opt relay s)"
  unfolding finalize_relay_def by (rule sets_shrink_fold) (rule sets_shrink_finalize_subId)

lemma sets_shrink_finalizeReq: "sets_shrink s (snd (finalizeReq sid_opt url_opt s))"
proof -
  have "sets_shrink s (fold (finalize_relay sid_opt) (map_values (relays s)) s)"
    by (rule sets_shrink_fold) (rule sets_shrink_finalize_relay)
  then show ?thesis
    by (simp add: finalizeReq_def sets_shrink_refl sets_shrink_finalize_relay split: option.splits)
qed

lemma sets_shrink_stop_loop: "sets_shrink s (snd (stop_loop us s))"
proof (induction us arbitrary: s)
  case Nil show ?case by (simp add: sets_shrink_refl)
next
  case (Cons u us)
  obtain e s' where fr: "finalizeReq None (Some u) s = (e, s')" by (cases "finalizeReq None (Some u) s")
  have a: "sets_shrink s s'" using sets_shrink_finalizeReq[of s None "Some u"] fr by simp
  show ?case
  proof (cases e)
    case (Some err) then show ?thesis using fr a by simp
  next
    case None
    have b: "sets_shrink s' (ws_call_opt (map_of (relays s') u) Stop s')"
      by (rule sets_shrink_same) (rule subIdSets_ws_call_opt)
    show ?thesis using fr None sets_shrink_trans[OF a sets_shrink_trans[OF b Cons]] by simp
  qed
qed

lemma those_map_Some:
  "those (map f xs) = Some ys \<Longrightarrow> ys = map (\<lambda>x. the (f x)) xs \<and> (\<forall>x\<in>set xs. f x \<noteq> None)"
  by (induction xs arbitrary: ys) (auto split: option.splits)

lemma filter_none:
  "list_all Q xs \<Longrightarrow> (\<And>c. Q c \<Longrightarrow> \<not> P c) \<Longrightarrow> filter P xs = []"
  by (induction xs) auto

lemma pool_inv_prev_ok:
  assumes "pool_inv s"
  shows "prev_ok (relays s) s"
  unfolding prev_ok_def
proof (intro conjI allI impI)
  fix k p assume "map_of (relays s) k = Some p"
  then have "(k, p) \<in> set (relays s)" by (rule map_of_SomeD)
  with assms show "activeSubIds p < set_count s" "websocket p < socket_count s"
    by (auto simp: pool_inv_def list_all_iff)
next
  fix k p k' p'
  assume a: "map_of (relays s) k = Some p \<and> map_of (relays s) k' = Some p' \<and> k \<noteq> k'"
  then have m: "(k, p) \<in> set (relays s)" "(k', p') \<in> set (relays s)" by (auto dest: map_of_SomeD)
  from assms have "distinct (map (activeSubIds \<circ> snd) (relays s))" "distinct (map (websocket \<circ> snd) (relays s))"
    by (simp_all add: pool_inv_def map_values_def)
  then have "inj_on (activeSubIds \<circ> snd) (set (relays s))" "inj_on (websocket \<circ> snd) (set (relays s))"
    by (simp_all add: distinct_map)
  then have "\<And>x y. x \<in> set (relays s) \<Longrightarrow> y \<in> set (relays s) \<Longrightarrow>
      activeSubIds (snd x) = activeSubIds (snd y) \<or> websocket (snd x) = websocket (snd y) \<Longrightarrow> x = y"
    unfolding inj_on_def by auto
  from this[OF m] a show "activeSubIds p \<noteq> activeSubIds p'" "websocket p \<noteq> websocket p'"
    by auto
qed

lemma pool_inv_entry:
  assumes "pool_inv s" "map_of (relays s) k = Some p"
  shows "url p = k" "activeSubIds p < set_count s" "read p \<or> subIdSets s (activeSubIds p) = []"
proof -
  from assms(2) have "(k, p) \<in> set (relays s)" by (rule map_of_SomeD)
  with assms(1) show "url p = k" "activeSubIds p < set_count s" "read p \<or> subIdSets s (activeSubIds p) = []"
    by (auto simp: pool_inv_def list_all_iff)
qed

lemma next_inv_init: "next_inv prev s [] s"
  by (simp add: next_inv_def)

lemma next_inv_values_url:
  assumes "next_inv prev s0 nxt s"
  shows "map url (map_values nxt) = map_keys nxt"
proof -
  have "\<And>e. e \<in> set nxt \<Longrightarrow> url (snd e) = fst e"
  proof -
    fix e assume "e \<in> set nxt"
    with next_inv_counts(3)[OF assms] have "map_of nxt (fst e) = Some (snd e)"
      by simp
    from next_inv_entry(1)[OF assms this] show "url (snd e) = fst e" .
  qed
  then show ?thesis by (simp add: map_values_def map_keys_def)
qed

lemma setRelays_None_steps:
  assumes "setRelays n input s = (None, s')"
  obtains rs nxt s1 s2 s3 s4 where
    "input_relays n input = Some rs"
    "getNextRelayState_loop (relays s) rs [] s = (nxt, s1)"
    "stop_loop (subtract (getReadableUrls None s1) (getReadableUrls (Some (map_values nxt)) s1)) s1 = (None, s2)"
    "req_loop nxt (subtract (getReadableUrls (Some (map_values nxt)) s1) (getReadableUrls None s1))
       (start_loop nxt (subtract (getReadableUrls (Some (map_values nxt)) s1) (getReadableUrls None s1)) s2) = (None, s3)"
    "req_loop nxt (subtract (getReadableUrls (Some (map_values nxt)) s1) (getReadableUrls None s1)) s3 = (None, s4)"
    "s' = (dispose_loop (subtract (map_keys (relays s4)) (map_keys nxt)) s4)\<lparr>relays := nxt\<rparr>"
proof -
  from assms obtain rs where rs: "input_relays n input = Some rs"
    by (auto simp: setRelays_def getNextRelayState_def split: option.splits)
  obtain nxt s1 where g: "getNextRelayState_loop (relays s) rs [] s = (nxt, s1)"
    by (cases "getNextRelayState_loop (relays s) rs [] s")
  let ?toRead = "subtract (getReadableUrls (Some (map_values nxt)) s1) (getReadableUrls None s1)"
  let ?noRead = "subtract (getReadableUrls None s1) (getReadableUrls (Some (map_values nxt)) s1)"
  obtain e2 s2 where st: "stop_loop ?noRead s1 = (e2, s2)" by (cases "stop_loop ?noRead s1")
  obtain e3 s3 where r1: "req_loop nxt ?toRead (start_loop nxt ?toRead s2) = (e3, s3)"
    by (cases "req_loop nxt ?toRead (start_loop nxt ?toRead s2)")
  obtain e4 s4 where r2: "req_loop nxt ?toRead s3 = (e4, s4)" by (cases "req_loop nxt ?toRead s3")
  from assms rs g st have e2: "e2 = None"
    by (cases e2) (simp_all add: setRelays_def getNextRelayState_def Let_def)
  from assms rs g st r1 e2 have e3: "e3 = None"
    by (cases e3) (simp_all add: setRelays_def getNextRelayState_def Let_def)
  from assms rs g st r1 r2 e2 e3 have e4: "e4 = None"
    by (cases e4) (simp_all add: setRelays_def getNextRelayState_def Let_def)
  from assms rs g st r1 r2 e2 e3 e4
  have "s' = (dispose_loop (subtract (map_keys (relays s4)) (map_keys nxt)) s4)\<lparr>relays := nxt\<rparr>"
    by (simp add: setRelays_def getNextRelayState_def Let_def)
  with that rs g st r1 r2 e2 e3 e4 show thesis by blast
qed

text \<open>What a successful setRelays does, for the relays that become readable.\<close>

lemma setRelays_added:
  assumes inv: "pool_inv s"
    and ok: "setRelays n input s = (None, s')"
    and reqs: "map_values (activeReqs s) \<noteq> []"
  obtains added A D where
    "\<And>r. r \<in> set added \<Longrightarrow> read r \<and> map_of (relays s') (url r) = Some r
         \<and> url r \<notin> set (getReadableUrls None s)"
    "\<And>u r. map_of (relays s') u = Some r \<Longrightarrow> read r \<Longrightarrow> u \<notin> set (getReadableUrls None s)
         \<Longrightarrow> r \<in> set added"
    "distinct (map activeSubIds added)" "distinct (map websocket added)"
    "calls s' = calls s @ A
        @ concat (map (\<lambda>q. map (\<lambda>r. (websocket r, Send (Req q))) added) (map_values (activeReqs s)))
        @ D"
    "list_all (\<lambda>c. is_CLOSE_call c \<or> snd c = Stop \<or> snd c = Start) A"
    "list_all (\<lambda>c. snd c = Dispose) D"
    "\<And>r. r \<in> set added \<Longrightarrow>
        set (subIdSets s' (activeSubIds r)) = subId_of ` set (map_values (activeReqs s))"
proof -
  from ok obtain rs nxt s1 s2 s3 s4 where
    rs: "input_relays n input = Some rs"
    and g: "getNextRelayState_loop (relays s) rs [] s = (nxt, s1)"
    and st: "stop_loop (subtract (getReadableUrls None s1) (getReadableUrls (Some (map_values nxt)) s1)) s1 = (None, s2)"
    and r1: "req_loop nxt (subtract (getReadableUrls (Some (map_values nxt)) s1) (getReadableUrls None s1))
       (start_loop nxt (subtract (getReadableUrls (Some (map_values nxt)) s1) (getReadableUrls None s1)) s2) = (None, s3)"
    and r2: "req_loop nxt (subtract (getReadableUrls (Some (map_values nxt)) s1) (getReadableUrls None s1)) s3 = (None, s4)"
    and fin: "s' = (dispose_loop (subtract (map_keys (relays s4)) (map_keys nxt)) s4)\<lparr>relays := nxt\<rparr>"
    by (rule setRelays_None_steps)
  let ?toRead = "subtract (getReadableUrls (Some (map_values nxt)) s1) (getReadableUrls None s1)"
  let ?s2' = "start_loop nxt ?toRead s2"
  let ?reqs = "map_values (activeReqs s)"
  have po: "prev_ok (relays s) s" by (rule pool_inv_prev_ok[OF inv])
  have ni: "next_inv (relays s) s nxt s1"
    using next_inv_loop[OF po next_inv_init, of rs] g by simp
  have al: "alloc_ext s s1" using alloc_ext_loop[of s "relays s" rs "[]"] g by simp
  have rel1: "relays s1 = relays s" and cal1: "calls s1 = calls s" and ar1: "activeReqs s1 = activeReqs s"
    using al by (simp_all add: alloc_ext_def)
  have prevR: "getReadableUrls None s1 = getReadableUrls None s"
    by (simp add: getReadableUrls_def rel1)
  have f2: "frame_eq s1 s2" using frame_eq_stop_loop[of s1] st by (metis snd_conv)
  have f2': "frame_eq s2 ?s2'" by (rule frame_eq_start_loop)
  have f3: "frame_eq ?s2' s3" using frame_eq_req_loop[of ?s2' nxt ?toRead] r1 by simp
  have f4: "frame_eq s3 s4" using frame_eq_req_loop[of s3 nxt ?toRead] r2 by simp
  have ar2': "activeReqs ?s2' = activeReqs s"
    using frame_eq_fields(2)[OF f2] frame_eq_fields(2)[OF f2'] ar1 by simp
  have ar3: "activeReqs s3 = activeReqs s"
    using frame_eq_fields(2)[OF f3] ar2' by simp
  have rels': "relays s' = nxt" using fin by simp
  \<comment> \<open>the urls to be read, and their records\<close>
  have keys: "map url (map_values nxt) = map_keys nxt" by (rule next_inv_values_url[OF ni])
  have dk: "distinct (map fst nxt)" by (rule next_inv_counts(3)[OF ni])
  have dnr: "distinct (getReadableUrls (Some (map_values nxt)) s1)"
  proof -
    have "distinct (map url (map_values nxt))" using keys dk by (simp add: map_keys_def)
    then show ?thesis by (simp add: getReadableUrls_def distinct_map_filter)
  qed
  have dtr: "distinct ?toRead" using dnr by (simp add: subtract_def)
  have in_next: "\<And>u. u \<in> set (getReadableUrls (Some (map_values nxt)) s1) \<longleftrightarrow>
      (\<exists>r. map_of nxt u = Some r \<and> read r)"
  proof
    fix u assume "u \<in> set (getReadableUrls (Some (map_values nxt)) s1)"
    then obtain e where e: "e \<in> set nxt" "read (snd e)" "url (snd e) = u"
      by (auto simp: getReadableUrls_def map_values_def)
    from e(1) dk have m: "map_of nxt (fst e) = Some (snd e)" by simp
    from next_inv_entry(1)[OF ni m] e(3) have "fst e = u" by simp
    with m e(2) show "\<exists>r. map_of nxt u = Some r \<and> read r" by auto
  next
    fix u assume "\<exists>r. map_of nxt u = Some r \<and> read r"
    then obtain r where r: "map_of nxt u = Some r" "read r" by blast
    from r(1) have "(u, r) \<in> set nxt" by (rule map_of_SomeD)
    moreover from next_inv_entry(1)[OF ni r(1)] have "url r = u" .
    ultimately show "u \<in> set (getReadableUrls (Some (map_values nxt)) s1)"
      using r(2) by (force simp: getReadableUrls_def map_values_def)
  qed
  have reqs2': "map_values (activeReqs ?s2') \<noteq> []" using reqs ar2' by simp
  from r1 reqs2' obtain added where
    th: "those (map (map_of nxt) ?toRead) = Some added"
    and s3: "s3 = fold (\<lambda>req. ensureReq req (Some added) None) ?reqs ?s2'"
    by (auto simp: req_loop_def ar2' split: option.splits if_splits)
  from those_map_Some[OF th] have added: "added = map (\<lambda>u. the (map_of nxt u)) ?toRead"
    and found: "\<And>u. u \<in> set ?toRead \<Longrightarrow> map_of nxt u \<noteq> None" by auto
  have mem: "\<And>r. r \<in> set added \<longleftrightarrow> (\<exists>u\<in>set ?toRead. map_of nxt u = Some r)"
    using added found by (auto simp: image_iff) (metis option.sel)+
  have P1: "\<And>r. r \<in> set added \<Longrightarrow> read r \<and> map_of (relays s') (url r) = Some r
         \<and> url r \<notin> set (getReadableUrls None s)"
  proof -
    fix r assume "r \<in> set added"
    with mem obtain u where u: "u \<in> set ?toRead" "map_of nxt u = Some r" by blast
    from u(1) have a: "u \<in> set (getReadableUrls (Some (map_values nxt)) s1)"
      and b: "u \<notin> set (getReadableUrls None s)" by (auto simp: subtract_def prevR)
    from a in_next u(2) have "read r" by auto
    moreover from next_inv_entry(1)[OF ni u(2)] have "url r = u" .
    ultimately show "read r \<and> map_of (relays s') (url r) = Some r
         \<and> url r \<notin> set (getReadableUrls None s)" using u(2) b rels' by simp
  qed
  have P2: "\<And>u r. map_of (relays s') u = Some r \<Longrightarrow> read r \<Longrightarrow> u \<notin> set (getReadableUrls None s)
         \<Longrightarrow> r \<in> set added"
  proof -
    fix u r assume a: "map_of (relays s') u = Some r" "read r" "u \<notin> set (getReadableUrls None s)"
    then have "u \<in> set ?toRead" using in_next[of u] rels' by (auto simp: subtract_def prevR)
    with a(1) rels' mem show "r \<in> set added" by auto
  qed
  have inj: "inj_on (\<lambda>u. the (map_of nxt u)) (set ?toRead)"
    and injA: "inj_on (\<lambda>u. activeSubIds (the (map_of nxt u))) (set ?toRead)"
    and injW: "inj_on (\<lambda>u. websocket (the (map_of nxt u))) (set ?toRead)"
  proof -
    have d: "\<And>u v. u \<in> set ?toRead \<Longrightarrow> v \<in> set ?toRead \<Longrightarrow> u \<noteq> v \<Longrightarrow>
      activeSubIds (the (map_of nxt u)) \<noteq> activeSubIds (the (map_of nxt v))
      \<and> websocket (the (map_of nxt u)) \<noteq> websocket (the (map_of nxt v))"
    proof -
      fix u v assume a: "u \<in> set ?toRead" "v \<in> set ?toRead" "u \<noteq> v"
      from found[OF a(1)] obtain r where r: "map_of nxt u = Some r" by auto
      from found[OF a(2)] obtain r' where r': "map_of nxt v = Some r'" by auto
      from next_inv_inj[OF ni r r' a(3)] r r'
      show "activeSubIds (the (map_of nxt u)) \<noteq> activeSubIds (the (map_of nxt v))
      \<and> websocket (the (map_of nxt u)) \<noteq> websocket (the (map_of nxt v))" by simp
    qed
    show "inj_on (\<lambda>u. activeSubIds (the (map_of nxt u))) (set ?toRead)"
      unfolding inj_on_def using d by blast
    show "inj_on (\<lambda>u. websocket (the (map_of nxt u))) (set ?toRead)"
      unfolding inj_on_def using d by blast
    show "inj_on (\<lambda>u. the (map_of nxt u)) (set ?toRead)"
      unfolding inj_on_def using d by metis
  qed
  have dA: "distinct (map activeSubIds added)"
    using dtr injA by (simp add: added distinct_map comp_def)
  have dW: "distinct (map websocket added)"
    using dtr injW by (simp add: added distinct_map comp_def)
  \<comment> \<open>their sets are empty before the REQ loops\<close>
  have sh: "sets_shrink s1 s2" using sets_shrink_stop_loop[of s1] st by (metis snd_conv)
  have empty2': "\<And>r. r \<in> set added \<Longrightarrow> subIdSets ?s2' (activeSubIds r) = []"
  proof -
    fix r assume ra: "r \<in> set added"
    with mem obtain u where u: "u \<in> set ?toRead" "map_of nxt u = Some r" by blast
    from P1[OF ra] have rd: "read r" and nb: "url r \<notin> set (getReadableUrls None s)" by auto
    from next_inv_entry(1)[OF ni u(2)] have ur: "url r = u" .
    have "subIdSets s1 (activeSubIds r) = []"
    proof (cases "map_of (relays s) u")
      case None
      from next_inv_entry(2)[OF ni u(2) None] al show ?thesis by (simp add: alloc_ext_def)
    next
      case (Some p)
      from next_inv_entry(3)[OF ni u(2) Some] have e: "activeSubIds r = activeSubIds p" by simp
      from pool_inv_entry[OF inv Some] have pu: "url p = u" and pb: "activeSubIds p < set_count s"
        and pr: "read p \<or> subIdSets s (activeSubIds p) = []" by auto
      have "\<not> read p"
      proof
        assume "read p"
        moreover from Some have "(u, p) \<in> set (relays s)" by (rule map_of_SomeD)
        ultimately have "u \<in> set (getReadableUrls None s)"
          using pu by (force simp: getReadableUrls_def map_values_def)
        with nb ur show False by simp
      qed
      with pr have "subIdSets s (activeSubIds p) = []" by simp
      with al pb e show ?thesis by (simp add: alloc_ext_def)
    qed
    with sh have "subIdSets s2 (activeSubIds r) = []"
      unfolding sets_shrink_def by (metis set_empty subset_empty)
    then show "subIdSets ?s2' (activeSubIds r) = []" by (simp add: subIdSets_start_loop)
  qed
  have dreq: "distinct (map subId_of ?reqs)"
  proof -
    from inv have "\<forall>x\<in>set (activeReqs s). subId_of (snd x) = fst x"
      by (auto simp: pool_inv_def list_all_iff)
    then have eq: "map (\<lambda>x. subId_of (snd x)) (activeReqs s) = map fst (activeReqs s)" by simp
    from inv have "distinct (map fst (activeReqs s))" by (simp add: pool_inv_def map_keys_def)
    then have "distinct (map (\<lambda>x. subId_of (snd x)) (activeReqs s))" unfolding eq .
    then show ?thesis by (simp add: map_values_def comp_def)
  qed
  have rdA: "\<And>r. r \<in> set added \<Longrightarrow> read r" using P1 by blast
  have notin: "\<And>r q. r \<in> set added \<Longrightarrow> q \<in> set ?reqs \<Longrightarrow>
      subId_of q \<notin> set (subIdSets ?s2' (activeSubIds r))"
    using empty2' by simp
  note p1 = req_pass1[OF dA rdA dreq notin, folded s3]
  from p1 have c3: "calls s3 = calls ?s2'
      @ concat (map (\<lambda>q. map (\<lambda>r. (websocket r, Send (Req q))) added) ?reqs)" by blast
  from p1 empty2' have set3: "\<And>r. r \<in> set added \<Longrightarrow>
      set (subIdSets s3 (activeSubIds r)) = subId_of ` set ?reqs" by simp
  have "fold (\<lambda>req. ensureReq req (Some added) None) ?reqs s3 = s3"
    by (rule req_pass2) (use set3 in auto)
  with r2 reqs ar3 th have s4: "s4 = s3" by (simp add: req_loop_def)
  \<comment> \<open>the calls\<close>
  from calls_ext_stop_loop[of s1] st obtain A1 where
    A1: "calls s2 = calls s1 @ A1" "list_all (\<lambda>c. is_CLOSE_call c \<or> snd c = Stop) A1"
    unfolding calls_ext_def by (metis snd_conv)
  from calls_ext_start_loop[of s2 nxt ?toRead] obtain A2 where
    A2: "calls ?s2' = calls s2 @ A2" "list_all (\<lambda>c. snd c = Start) A2"
    unfolding calls_ext_def by blast
  from calls_ext_dispose_loop[of s4 "subtract (map_keys (relays s4)) (map_keys nxt)"] obtain D where
    D: "calls (dispose_loop (subtract (map_keys (relays s4)) (map_keys nxt)) s4) = calls s4 @ D"
      "list_all (\<lambda>c. snd c = Dispose) D"
    unfolding calls_ext_def by blast
  have C: "calls s' = calls s @ (A1 @ A2)
        @ concat (map (\<lambda>q. map (\<lambda>r. (websocket r, Send (Req q))) added) ?reqs) @ D"
    using fin D(1) s4 c3 A2(1) A1(1) cal1 by simp
  have LA: "list_all (\<lambda>c. is_CLOSE_call c \<or> snd c = Stop \<or> snd c = Start) (A1 @ A2)"
    using A1(2) A2(2) by (auto simp: list_all_iff)
  have S': "\<And>r. r \<in> set added \<Longrightarrow>
        set (subIdSets s' (activeSubIds r)) = subId_of ` set ?reqs"
    using set3 s4 fin by (simp add: subIdSets_dispose_loop)
  show thesis
    by (rule that[of added "A1 @ A2" D]; (rule P1 P2 dA dW C LA D(2) S'; assumption))
qed

lemma concat_if_singleton:
  "concat (map (\<lambda>q. if P q then [g q] else []) xs) = map g (filter P xs)"
  by (induction xs) auto

lemma filter_req_grid:
  assumes "distinct (map websocket added)" "r \<in> set added"
    and "distinct (map subId_of reqs)" "req \<in> set reqs"
  shows "filter (\<lambda>c. fst c = websocket r \<and> is_REQ_for (subId_of req) c)
           (concat (map (\<lambda>q. map (\<lambda>r'. (websocket r', Send (Req q))) added) reqs))
         = [(websocket r, Send (Req req))]"
proof -
  let ?P = "\<lambda>c. fst c = websocket r \<and> is_REQ_for (subId_of req) c"
  have inner: "\<And>q. filter ?P (map (\<lambda>r'. (websocket r', Send (Req q))) added)
       = (if subId_of q = subId_of req then [(websocket r, Send (Req q))] else [])"
  proof -
    fix q
    have "filter ?P (map (\<lambda>r'. (websocket r', Send (Req q))) added)
        = map (\<lambda>r'. (websocket r', Send (Req q)))
            (filter (\<lambda>r'. websocket r' = websocket r \<and> subId_of q = subId_of req) added)"
      by (simp add: filter_map comp_def is_REQ_for_def)
    also have "\<dots> = (if subId_of q = subId_of req then [(websocket r, Send (Req q))] else [])"
      using filter_unique[OF assms(1,2)] by simp
    finally show "filter ?P (map (\<lambda>r'. (websocket r', Send (Req q))) added)
       = (if subId_of q = subId_of req then [(websocket r, Send (Req q))] else [])" .
  qed
  have "filter ?P (concat (map (\<lambda>q. map (\<lambda>r'. (websocket r', Send (Req q))) added) reqs))
      = concat (map (\<lambda>q. if subId_of q = subId_of req then [(websocket r, Send (Req q))] else []) reqs)"
    by (simp add: filter_concat comp_def inner)
  also have "\<dots> = map (\<lambda>q. (websocket r, Send (Req q))) (filter (\<lambda>q. subId_of q = subId_of req) reqs)"
    by (rule concat_if_singleton)
  also have "\<dots> = [(websocket r, Send (Req req))]"
    using filter_unique[OF assms(3,4)] by simp
  finally show ?thesis .
qed

text \<open>
  Let the pool satisfy its invariant, let \<^verbatim>\<open>setRelays\<close> return, let the registry hold
  the REQ \<open>req\<close> under the sub id \<open>sid\<close>, and let the relay \<open>r\<close> of the new pool be
  readable while its url was not readable before. Then among the calls of this
  transition exactly one sends a REQ frame with that sub id to the websocket of \<open>r\<close>,
  it is the registered frame, and the sub id is in the \<^verbatim>\<open>activeSubIds\<close> of \<open>r\<close>
  afterwards. (The second of the two identical loops sends nothing.)
\<close>

lemma setRelays_sends_registered_req:
  assumes inv: "pool_inv s"
    and ok: "setRelays normalizeUrl input s = (None, s')"
    and reg: "map_of (activeReqs s) sid = Some req"
    and new: "map_of (relays s') u = Some r" "read r"
    and old: "u \<notin> set (getReadableUrls None s)"
  shows "filter (\<lambda>c. fst c = websocket r \<and> is_REQ_for sid c) (drop (length (calls s)) (calls s'))
           = [(websocket r, Send (Req req))]
       \<and> sid \<in> set (subIdSets s' (activeSubIds r))"
proof -
  from reg have mem: "(sid, req) \<in> set (activeReqs s)" by (rule map_of_SomeD)
  then have rq: "req \<in> set (map_values (activeReqs s))" by (force simp: map_values_def)
  then have ne: "map_values (activeReqs s) \<noteq> []" by auto
  from inv mem have sid: "subId_of req = sid" by (auto simp: pool_inv_def list_all_iff)
  have dreq: "distinct (map subId_of (map_values (activeReqs s)))"
  proof -
    from inv have "\<forall>x\<in>set (activeReqs s). subId_of (snd x) = fst x"
      by (auto simp: pool_inv_def list_all_iff)
    then have eq: "map (\<lambda>x. subId_of (snd x)) (activeReqs s) = map fst (activeReqs s)" by simp
    from inv have "distinct (map fst (activeReqs s))" by (simp add: pool_inv_def map_keys_def)
    then have "distinct (map (\<lambda>x. subId_of (snd x)) (activeReqs s))" unfolding eq .
    then show ?thesis by (simp add: map_values_def comp_def)
  qed
  from inv ok ne obtain added A D where
    P1: "\<And>r. r \<in> set added \<Longrightarrow> read r \<and> map_of (relays s') (url r) = Some r
         \<and> url r \<notin> set (getReadableUrls None s)"
    and P2: "\<And>u r. map_of (relays s') u = Some r \<Longrightarrow> read r \<Longrightarrow> u \<notin> set (getReadableUrls None s)
         \<Longrightarrow> r \<in> set added"
    and dA: "distinct (map activeSubIds added)" and dW: "distinct (map websocket added)"
    and C: "calls s' = calls s @ A
        @ concat (map (\<lambda>q. map (\<lambda>r. (websocket r, Send (Req q))) added) (map_values (activeReqs s)))
        @ D"
    and LA: "list_all (\<lambda>c. is_CLOSE_call c \<or> snd c = Stop \<or> snd c = Start) A"
    and LD: "list_all (\<lambda>c. snd c = Dispose) D"
    and S: "\<And>r. r \<in> set added \<Longrightarrow>
        set (subIdSets s' (activeSubIds r)) = subId_of ` set (map_values (activeReqs s))"
    by (rule setRelays_added) blast
  have ra: "r \<in> set added" by (rule P2[OF new old])
  let ?P = "\<lambda>c. fst c = websocket r \<and> is_REQ_for sid c"
  have fA: "filter ?P A = []"
    by (rule filter_none[OF LA])
       (auto simp: is_REQ_for_def is_CLOSE_call_def split: ws_call.splits OutgoingMessage.splits)
  have fD: "filter ?P D = []"
    by (rule filter_none[OF LD]) (auto simp: is_REQ_for_def)
  have fC: "filter ?P (concat (map (\<lambda>q. map (\<lambda>r. (websocket r, Send (Req q))) added)
              (map_values (activeReqs s)))) = [(websocket r, Send (Req req))]"
    using filter_req_grid[OF dW ra dreq rq] sid by simp
  have "drop (length (calls s)) (calls s') = A
        @ concat (map (\<lambda>q. map (\<lambda>r. (websocket r, Send (Req q))) added) (map_values (activeReqs s)))
        @ D" using C by simp
  then have "filter ?P (drop (length (calls s)) (calls s')) = [(websocket r, Send (Req req))]"
    using fA fC fD by simp
  moreover have "sid \<in> set (subIdSets s' (activeSubIds r))"
    using S[OF ra] rq sid by auto
  ultimately show ?thesis by simp
qed

lemma setRelays_sends_registered_req_example:
  "pool_inv example_pool
   \<and> fst (setRelays Some (RelayArray [Url ''ws://localhost:1234'', Url ''ws://localhost:1235''])
          example_pool) = None
   \<and> map_of (activeReqs example_pool) ''sub:0'' = Some (REQ ''sub:0'' [])
   \<and> map_of (relays (snd (setRelays Some
          (RelayArray [Url ''ws://localhost:1234'', Url ''ws://localhost:1235'']) example_pool)))
        ''ws://localhost:1235''
       = Some \<lparr>url = ''ws://localhost:1235'', read = True, write = True,
                activeSubIds = 1, websocket = 1\<rparr>
   \<and> ''ws://localhost:1235'' \<notin> set (getReadableUrls None example_pool)
   \<and> filter (\<lambda>c. fst c = 1 \<and> is_REQ_for ''sub:0'' c)
        (drop (length (calls example_pool))
           (calls (snd (setRelays Some
              (RelayArray [Url ''ws://localhost:1234'', Url ''ws://localhost:1235''])
              example_pool))))
       = [(1, Send (Req (REQ ''sub:0'' [])))]
   \<and> ''sub:0'' \<in> set (subIdSets (snd (setRelays Some
          (RelayArray [Url ''ws://localhost:1234'', Url ''ws://localhost:1235'']) example_pool)) 1)"
proof -
  let ?r = "setRelays Some (RelayArray [Url ''ws://localhost:1234'', Url ''ws://localhost:1235''])
              example_pool"
  have inv: "pool_inv example_pool"
    by (simp add: pool_inv_def example_pool_def createRxNostr_def map_keys_def map_values_def)
  have f: "fst ?r = None" by (auto simp: example_pool_def eval_defs)
  then have ok: "?r = (None, snd ?r)" by (simp add: prod_eq_iff)
  have reg: "map_of (activeReqs example_pool) ''sub:0'' = Some (REQ ''sub:0'' [])"
    by (simp add: example_pool_def)
  have new: "map_of (relays (snd ?r)) ''ws://localhost:1235''
       = Some \<lparr>url = ''ws://localhost:1235'', read = True, write = True,
                activeSubIds = 1, websocket = 1\<rparr>"
    by (auto simp: example_pool_def eval_defs)
  have old: "''ws://localhost:1235'' \<notin> set (getReadableUrls None example_pool)"
    by (simp add: example_pool_def eval_defs)
  from setRelays_sends_registered_req[OF inv ok reg new _ old] inv f reg new old
  show ?thesis by simp
qed

subsection \<open>Normalized urls\<close>

lemma those_map_mem:
  "those (map f xs) = Some ys \<Longrightarrow> y \<in> set ys \<Longrightarrow> \<exists>x\<in>set xs. f x = Some y"
  by (induction xs arbitrary: ys) (auto split: option.splits)

lemma normalizeRelay_url:
  "normalizeRelay normalizeUrl x = Some r \<Longrightarrow> \<exists>raw. normalizeUrl raw = Some (url r)"
  by (auto simp: normalizeRelay_def Let_def split: option.splits)

lemma setRelays_array_keys_normalized:
  assumes "setRelays normalizeUrl (RelayArray xs) s = (None, s')"
    and "k \<in> set (map_keys (relays s'))"
  shows "\<exists>raw. normalizeUrl raw = Some k"
proof -
  from assms(1) obtain rs nxt s1 s2 s3 s4 where
    rs: "input_relays normalizeUrl (RelayArray xs) = Some rs"
    and g: "getNextRelayState_loop (relays s) rs [] s = (nxt, s1)"
    and fin: "s' = (dispose_loop (subtract (map_keys (relays s4)) (map_keys nxt)) s4)\<lparr>relays := nxt\<rparr>"
    by (rule setRelays_None_steps)
  from fin have "relays s' = nxt" by simp
  with assms(2) have "k \<in> fst ` set nxt" by (simp add: map_keys_def)
  with loop_keys[of "relays s" rs "[]" s] g have "k \<in> url ` set rs" by simp
  then obtain r where r: "r \<in> set rs" "url r = k" by auto
  from rs have "those (map (normalizeRelay normalizeUrl) xs) = Some rs"
    by (simp add: input_relays_def)
  from those_map_mem[OF this r(1)] obtain x where "normalizeRelay normalizeUrl x = Some r" by blast
  from normalizeRelay_url[OF this] r(2) show ?thesis by simp
qed

lemma setRelays_object_keys:
  assumes "setRelays normalizeUrl (RelayObject es) s = (None, s')"
  shows "set (map_keys (relays s')) = fst ` set es"
proof -
  from assms(1) obtain rs nxt s1 s2 s3 s4 where
    rs: "input_relays normalizeUrl (RelayObject es) = Some rs"
    and g: "getNextRelayState_loop (relays s) rs [] s = (nxt, s1)"
    and fin: "s' = (dispose_loop (subtract (map_keys (relays s4)) (map_keys nxt)) s4)\<lparr>relays := nxt\<rparr>"
    by (rule setRelays_None_steps)
  from fin have "relays s' = nxt" by simp
  moreover from rs have "url ` set rs = fst ` set es"
    by (force simp: input_relays_def image_iff)
  ultimately show ?thesis using loop_keys[of "relays s" rs "[]" s] g by (simp add: map_keys_def)
qed

text \<open>
  C4. For an array, every key of the new pool is a value of \<^verbatim>\<open>normalizeUrl\<close>
  (\<open>setRelays_array_keys_normalized\<close>). For an object the keys are the urls as given
  (\<open>setRelays_object_keys\<close>): \<^verbatim>\<open>normalizeUrl\<close> is not called on them. On a new client
  the object \<^verbatim>\<open>{"https://relay.example/": {read: true, write: true}}\<close> gives the key
  \<^verbatim>\<open>https://relay.example/\<close> and a websocket of that url, whatever \<^verbatim>\<open>normalizeUrl\<close> is,
  where the array of the same url gives the key \<open>n ''https://relay.example/''\<close> for
  the normalizer \<open>n\<close>. normalize-url returns \<^verbatim>\<open>https://relay.example\<close> there: it removes
  the final slash of an http or https url (a url of the schemes ws and wss it returns
  as it is).
\<close>

theorem setRelays_object_url_not_normalized:
  "map_keys (relays (snd (setRelays normalizeUrl
      (RelayObject [(''https://relay.example/'', True, True)]) (createRxNostr None None))))
     = [''https://relay.example/'']
   \<and> socket_url (snd (setRelays normalizeUrl
      (RelayObject [(''https://relay.example/'', True, True)]) (createRxNostr None None))) 0
     = ''https://relay.example/''
   \<and> map_keys (relays (snd (setRelays (\<lambda>u. Some (n u))
      (RelayArray [Url ''https://relay.example/'']) (createRxNostr None None))))
     = [n ''https://relay.example/'']"
  by (auto simp: eval_defs)

subsection \<open>Completion of an inner stream\<close>

lemma update_fresh: "k \<notin> fst ` set al \<Longrightarrow> AList.update k v al = al @ [(k, v)]"
  by (induction al) auto

lemma fromEntries_fold:
  "distinct (map fst (acc @ ps)) \<Longrightarrow> fold (\<lambda>(k, v). AList.update k v) ps acc = acc @ ps"
proof (induction ps arbitrary: acc)
  case Nil then show ?case by simp
next
  case (Cons p ps)
  obtain k v where p: "p = (k, v)" by (cases p)
  from Cons.prems p have "k \<notin> fst ` set acc" by auto
  then have u: "AList.update k v acc = acc @ [(k, v)]" by (rule update_fresh)
  from Cons.prems p have "distinct (map fst ((acc @ [(k, v)]) @ ps))" by simp
  from Cons.IH[OF this] u p show ?case by simp
qed

lemma fromEntries_distinct: "distinct (map fst ps) \<Longrightarrow> fromEntries ps = ps"
  using fromEntries_fold[of "[]" ps] by (simp add: fromEntries_def)

lemma getAllRelayState_loop_found:
  "(\<And>e. e \<in> set es \<Longrightarrow> map_of (relays s) (url e) = Some e) \<Longrightarrow>
   getAllRelayState_loop es s = Inr (map (\<lambda>e. (url e, socket_state s (websocket e))) es)"
  by (induction es) (simp_all add: getRelayState_def)

lemma pool_inv_keys_ok: "pool_inv s \<Longrightarrow> keys_ok (relays s)"
  by (auto simp: pool_inv_def keys_ok_def map_keys_def list_all_iff)

lemma getAllRelayState_keys_ok:
  assumes "keys_ok (relays s)"
  shows "getAllRelayState s = Inr (map (\<lambda>(k, r). (k, socket_state s (websocket r))) (relays s))"
proof -
  have f: "\<And>e. e \<in> set (map_values (relays s)) \<Longrightarrow> map_of (relays s) (url e) = Some e"
  proof -
    fix e assume "e \<in> set (map_values (relays s))"
    then obtain k where k: "(k, e) \<in> set (relays s)" by (auto simp: map_values_def)
    with assms have "url e = k" by (auto simp: keys_ok_def list_all_iff)
    with k assms show "map_of (relays s) (url e) = Some e" by (simp add: keys_ok_def)
  qed
  have "map (\<lambda>e. (url e, socket_state s (websocket e))) (map_values (relays s))
      = map (\<lambda>(k, r). (k, socket_state s (websocket r))) (relays s)"
    using assms by (auto simp: map_values_def keys_ok_def list_all_iff)
  with getAllRelayState_loop_found[OF f] show ?thesis by (simp add: getAllRelayState_def)
qed

lemma shouldComplete_condition:
  assumes "keys_ok (relays s)"
  shows "shouldComplete (map (\<lambda>(k, r). (k, socket_state s (websocket r))) (relays s)) eose
       = completion_condition s eose"
proof -
  have "(fst \<circ> (\<lambda>(k, r). (k, socket_state s (websocket r)))) = (fst :: string \<times> RelayState \<Rightarrow> string)"
    by (auto simp: fun_eq_iff)
  then have "map fst (map (\<lambda>(k, r). (k, socket_state s (websocket r))) (relays s)) = map fst (relays s)"
    by simp
  with assms have "distinct (map fst (map (\<lambda>(k, r). (k, socket_state s (websocket r))) (relays s)))"
    unfolding keys_ok_def by metis
  from fromEntries_distinct[OF this] show ?thesis
    by (simp add: shouldComplete_def completion_condition_def list_all_iff split: prod.splits)
qed

lemma manageCompletion_status:
  assumes "keys_ok (relays s)" "em_status em = Active"
  shows "em_status (fst (manageCompletion em s))
       = (if completion_condition s (eoseRelays em) then Completed else Active)"
  using assms
  by (simp add: manageCompletion_def getAllRelayState_keys_ok shouldComplete_condition em_finalize_def)

lemma frame_eq_em_finalize: "frame_eq s (snd (em_finalize st em s))"
  by (simp add: em_finalize_def frame_eq_finalizeReq)

lemma frame_eq_manageCompletion: "frame_eq s (snd (manageCompletion em s))"
  by (simp add: manageCompletion_def frame_eq_refl frame_eq_em_finalize split: sum.splits)

lemma frame_eq_em_next: "frame_eq s (snd (em_next packet em s))"
proof -
  obtain e s1 where f: "finalizeReq (Some (em_subId em)) (Some (from packet)) s = (e, s1)"
    by (cases "finalizeReq (Some (em_subId em)) (Some (from packet)) s")
  have a: "frame_eq s s1" using frame_eq_finalizeReq[of s "Some (em_subId em)" "Some (from packet)"] f by simp
  show ?thesis
    using f a frame_eq_trans[OF a frame_eq_manageCompletion]
    by (auto simp: em_next_def frame_eq_refl split: IncomingMessage.splits option.splits)
qed

lemma frame_eq_em_complete: "frame_eq s (snd (em_complete em s))"
  by (simp add: em_complete_def frame_eq_refl frame_eq_em_finalize)

lemma dispatch_length: "length (fst (dispatch h ems s)) = length ems"
  by (induction ems arbitrary: s) simp_all

lemma frame_eq_dispatch:
  assumes "\<And>em s. frame_eq s (snd (h em s))"
  shows "frame_eq s (snd (dispatch h ems s))"
proof (induction ems arbitrary: s)
  case Nil show ?case by (simp add: frame_eq_refl)
next
  case (Cons em ems)
  show ?case using frame_eq_trans[OF assms[of s em] Cons[of "snd (h em s)"]] by simp
qed

lemma dispatch_nth:
  assumes "\<And>em s. frame_eq s (snd (h em s))"
  shows "i < length ems \<Longrightarrow>
     \<exists>si. frame_eq s si \<and> fst (dispatch h ems s) ! i = fst (h (ems ! i) si)"
proof (induction ems arbitrary: i s)
  case Nil then show ?case by simp
next
  case (Cons em ems)
  show ?case
  proof (cases i)
    case 0
    then show ?thesis using frame_eq_refl[of s] by auto
  next
    case (Suc j)
    with Cons.prems have "j < length ems" by simp
    from Cons.IH[OF this, of "snd (h em s)"] obtain si where
      si: "frame_eq (snd (h em s)) si" "fst (dispatch h ems (snd (h em s))) ! j = fst (h (ems ! j) si)"
      by blast
    from frame_eq_trans[OF assms[of s em] si(1)] si(2) Suc show ?thesis by auto
  qed
qed

lemma completion_condition_frame:
  "frame_eq s s' \<Longrightarrow> completion_condition s' eose = completion_condition s eose"
  by (simp add: completion_condition_def frame_eq_def)

lemma finalizeReq_known:
  assumes "u \<in> fst ` set (relays s)"
  shows "fst (finalizeReq (Some sid) (Some u) s) = None"
proof -
  from assms have "map_of (relays s) u \<noteq> None" by (simp add: map_of_eq_None_iff)
  then show ?thesis by (auto simp: finalizeReq_def split: option.splits)
qed

lemma em_next_eose_status:
  assumes k: "keys_ok (relays s)" and a: "em_status em = Active"
    and m: "message p = EOSE (em_subId em)" and n: "from p \<notin> set (eoseRelays em)"
    and f: "from p \<in> fst ` set (relays s)"
  shows "em_status (fst (em_next p em s))
       = (if completion_condition s (set_add (from p) (eoseRelays em)) then Completed else Active)"
proof -
  obtain e s1 where fr: "finalizeReq (Some (em_subId em)) (Some (from p)) s = (e, s1)"
    by (cases "finalizeReq (Some (em_subId em)) (Some (from p)) s")
  from finalizeReq_known[OF f, of "em_subId em"] fr have e: "e = None" by simp
  have fe: "frame_eq s s1" using frame_eq_finalizeReq[of s "Some (em_subId em)" "Some (from p)"] fr by simp
  then have k1: "keys_ok (relays s1)" using k by (simp add: frame_eq_def)
  let ?em1 = "em\<lparr>eoseRelays := set_add (from p) (eoseRelays em)\<rparr>"
  have "em_next p em s = manageCompletion ?em1 s1"
    using a m n fr e by (simp add: em_next_def filterBySubId_def)
  moreover have "em_status (fst (manageCompletion ?em1 s1))
       = (if completion_condition s1 (eoseRelays ?em1) then Completed else Active)"
    by (rule manageCompletion_status[OF k1]) (simp add: a)
  ultimately show ?thesis using completion_condition_frame[OF fe] by simp
qed

lemma frame_but_streams_refl: "frame_but_streams s s"
  by (simp add: frame_but_streams_def frame_eq_def)

lemma frame_but_streams_trans:
  "frame_but_streams s s' \<Longrightarrow> frame_but_streams s' s'' \<Longrightarrow> frame_but_streams s s''"
  by (simp add: frame_but_streams_def frame_eq_def)

lemma frame_but_streams_fold:
  assumes "\<And>x s. frame_but_streams s (f x s)"
  shows "frame_but_streams s (fold f xs s)"
proof (induction xs arbitrary: s)
  case Nil show ?case by (simp add: frame_but_streams_refl)
next
  case (Cons x xs)
  show ?case using frame_but_streams_trans[OF assms[of s x] Cons[of "f x s"]] by simp
qed

lemma frame_but_streams_update:
  "frame_eq s s1 \<Longrightarrow> length xs = length (eose_streams s)
   \<Longrightarrow> frame_but_streams s (s1\<lparr>eose_streams := xs\<rparr>)"
  by (simp add: frame_but_streams_def frame_eq_def)

lemma frame_but_streams_fields:
  assumes "frame_but_streams s s'"
  shows "relays s' = relays s" "activeReqs s' = activeReqs s"
    "message_stopped s' = message_stopped s" "error_stopped s' = error_stopped s"
    "status_stopped s' = status_stopped s" "set_count s' = set_count s"
    "socket_state s' = socket_state s" "socket_count s' = socket_count s"
    "errors_out s' = errors_out s" "length (eose_streams s') = length (eose_streams s)"
  using assms by (simp_all add: frame_but_streams_def frame_eq_def)

lemma frame_but_streams_unsubscribe_inner: "frame_but_streams s (unsubscribe_inner k j s)"
  by (simp add: unsubscribe_inner_def Let_def frame_but_streams_refl
        frame_but_streams_update[OF frame_eq_em_finalize])

lemma frame_but_streams_stream_error: "frame_but_streams s (stream_error k s)"
  unfolding stream_error_def
  by (rule frame_but_streams_fold) (rule frame_but_streams_unsubscribe_inner)

lemma frame_but_streams_deliver: "frame_but_streams s (deliver p i s)"
proof -
  let ?s1 = "(snd (em_next p (eose_streams s ! i) s))
               \<lparr>eose_streams := (eose_streams s)[i := fst (em_next p (eose_streams s ! i) s)]\<rparr>"
  have a: "frame_but_streams s ?s1"
    by (rule frame_but_streams_update[OF frame_eq_em_next]) simp
  from a frame_but_streams_trans[OF a frame_but_streams_stream_error[of ?s1 i]]
  show ?thesis by (simp add: deliver_def Let_def)
qed

lemma frame_but_streams_message_next: "frame_but_streams s (message_next p s)"
  unfolding message_next_def
  by (simp add: frame_but_streams_refl frame_but_streams_fold[of "deliver p", OF frame_but_streams_deliver])

text \<open>A message of a relay of the pool makes no inner stream fail.\<close>

lemma em_next_known_status:
  assumes "from p \<in> fst ` set (relays s)" and "em_status (fst (em_next p em s)) = Errored"
  shows "em_status em = Errored"
proof (rule ccontr)
  assume n: "em_status em \<noteq> Errored"
  obtain e s1 where fr: "finalizeReq (Some (em_subId em)) (Some (from p)) s = (e, s1)"
    by (cases "finalizeReq (Some (em_subId em)) (Some (from p)) s")
  from finalizeReq_known[OF assms(1), of "em_subId em"] fr have e: "e = None" by simp
  from n fr e have "em_status (fst (em_next p em s)) \<noteq> Errored"
    by (auto simp: em_next_def manageCompletion_def em_finalize_def
          split: IncomingMessage.splits sum.splits)
  with assms(2) show False by simp
qed

lemma deliver_known:
  assumes "from p \<in> fst ` set (relays s)"
  shows "deliver p j s
       = (snd (em_next p (eose_streams s ! j) s))
           \<lparr>eose_streams := (eose_streams s)[j := fst (em_next p (eose_streams s ! j) s)]\<rparr>"
  using em_next_known_status[OF assms, of "eose_streams s ! j"]
  by (auto simp: deliver_def Let_def)

lemma fold_deliver_other:
  assumes "from p \<in> fst ` set (relays s)" "i \<notin> set js"
  shows "eose_streams (fold (deliver p) js s) ! i = eose_streams s ! i"
  using assms
proof (induction js arbitrary: s)
  case Nil show ?case by simp
next
  case (Cons j js)
  from Cons.prems have ne: "i \<noteq> j" and nin: "i \<notin> set js" by auto
  have r: "relays (deliver p j s) = relays s"
    by (rule frame_but_streams_fields(1)[OF frame_but_streams_deliver])
  have "eose_streams (deliver p j s) ! i = eose_streams s ! i"
    using ne by (simp add: deliver_known[OF Cons.prems(1)])
  with Cons.IH[of "deliver p j s"] Cons.prems(1) r nin show ?case by simp
qed

text \<open>
  C1 (amended). Let the keys of the pool be distinct and equal to the urls of their
  records, and let the inner stream at index \<open>i\<close> be running. A connection state
  reported by any websocket (a packet on \<^verbatim>\<open>status$\<close>) completes the stream exactly when,
  in the states then reported, every relay of the pool is in the state error or
  terminated, or is ongoing and in \<^verbatim>\<open>eoseRelays\<close>. An EOSE for the sub id of the stream
  from a relay of the pool that is not yet in \<^verbatim>\<open>eoseRelays\<close> completes the stream
  exactly when the same holds with the sender added to \<^verbatim>\<open>eoseRelays\<close>. A relay in the
  state rejected keeps the stream open.
\<close>

theorem inner_stream_completion:
  assumes k: "keys_ok (relays s)" and i: "i < length (eose_streams s)"
    and a: "em_status (eose_streams s ! i) = Active"
  shows "(\<not> status_stopped s \<longrightarrow>
           (em_status (eose_streams (socket_connection_state w st s) ! i) = Completed
            \<longleftrightarrow> completion_condition (s\<lparr>socket_state := (socket_state s)(w := st)\<rparr>)
                  (eoseRelays (eose_streams s ! i))))
       \<and> (\<not> message_stopped s \<and> \<not> socket_closed s w
            \<and> message p = EOSE (em_subId (eose_streams s ! i))
            \<and> from p \<notin> set (eoseRelays (eose_streams s ! i))
            \<and> from p \<in> fst ` set (relays s) \<longrightarrow>
           (em_status (eose_streams (socket_message w p s) ! i) = Completed
            \<longleftrightarrow> completion_condition s (set_add (from p) (eoseRelays (eose_streams s ! i)))))"
proof (intro conjI impI)
  assume ns: "\<not> status_stopped s"
  let ?s0 = "s\<lparr>socket_state := (socket_state s)(w := st)\<rparr>"
  let ?em = "eose_streams s ! i"
  have "eose_streams (socket_connection_state w st s) = fst (dispatch manageCompletion (eose_streams s) ?s0)"
    using ns by (simp add: socket_connection_state_def status_next_def notify_def)
  moreover from dispatch_nth[of manageCompletion i "eose_streams s" ?s0, OF frame_eq_manageCompletion i]
  obtain si where si: "frame_eq ?s0 si"
    "fst (dispatch manageCompletion (eose_streams s) ?s0) ! i = fst (manageCompletion ?em si)" by blast
  moreover have "keys_ok (relays si)" using si(1) k by (simp add: frame_eq_def)
  from manageCompletion_status[OF this a]
  have "em_status (fst (manageCompletion ?em si))
       = (if completion_condition ?s0 (eoseRelays ?em) then Completed else Active)"
    using completion_condition_frame[OF si(1)] by simp
  ultimately show "em_status (eose_streams (socket_connection_state w st s) ! i) = Completed
            \<longleftrightarrow> completion_condition ?s0 (eoseRelays ?em)" by simp
next
  let ?em = "eose_streams s ! i"
  let ?n = "length (eose_streams s)"
  assume h: "\<not> message_stopped s \<and> \<not> socket_closed s w
            \<and> message p = EOSE (em_subId ?em)
            \<and> from p \<notin> set (eoseRelays ?em)
            \<and> from p \<in> fst ` set (relays s)"
  let ?sa = "fold (deliver p) [0..<i] s"
  let ?sb = "deliver p i ?sa"
  have split: "[0..<?n] = [0..<i] @ i # [Suc i..<?n]"
    using i upt_add_eq_append[of 0 i "?n - i"] by (simp add: upt_conv_Cons)
  have run: "socket_message w p s = fold (deliver p) [Suc i..<?n] ?sb"
    using h split by (simp add: socket_message_def message_next_def)
  have fa: "frame_but_streams s ?sa"
    by (rule frame_but_streams_fold) (rule frame_but_streams_deliver)
  have ra: "relays ?sa = relays s" and sa: "socket_state ?sa = socket_state s"
    and la: "length (eose_streams ?sa) = ?n"
    using frame_but_streams_fields[OF fa] by simp_all
  have ka: "keys_ok (relays ?sa)" and pa: "from p \<in> fst ` set (relays ?sa)"
    using ra k h by simp_all
  have ia: "eose_streams ?sa ! i = ?em"
    using fold_deliver_other[of p s i "[0..<i]"] h by simp
  have "eose_streams ?sb ! i = fst (em_next p ?em ?sa)"
    using i la ia by (simp add: deliver_known[OF pa])
  moreover have "em_status (fst (em_next p ?em ?sa))
       = (if completion_condition ?sa (set_add (from p) (eoseRelays ?em)) then Completed else Active)"
    using em_next_eose_status[OF ka a _ _ pa] h by simp
  moreover have "completion_condition ?sa (set_add (from p) (eoseRelays ?em))
       = completion_condition s (set_add (from p) (eoseRelays ?em))"
    using ra sa by (simp add: completion_condition_def)
  moreover have "relays ?sb = relays ?sa"
    by (rule frame_but_streams_fields(1)[OF frame_but_streams_deliver])
  then have "eose_streams (fold (deliver p) [Suc i..<?n] ?sb) ! i = eose_streams ?sb ! i"
    using fold_deliver_other[of p ?sb i "[Suc i..<?n]"] pa by simp
  ultimately show "em_status (eose_streams (socket_message w p s) ! i) = Completed
            \<longleftrightarrow> completion_condition s (set_add (from p) (eoseRelays ?em))"
    using run by simp
qed

lemmas stream_eval_defs = socket_connection_state_def socket_message_def status_next_def
  message_next_def deliver_def stream_error_def unsubscribe_inner_def notify_def manageCompletion_def getAllRelayState_def getRelayState_def
  shouldComplete_def fromEntries_def em_finalize_def em_next_def filterBySubId_def
  createEoseManagedEventObservable_def completion_condition_def claimed_completion_condition_def
  keys_ok_def example_backward_def

theorem inner_stream_completion_witness:
  "keys_ok (relays example_backward) \<and> 0 < length (eose_streams example_backward)
   \<and> em_status (eose_streams example_backward ! 0) = Active
   \<and> \<not> status_stopped example_backward
   \<and> em_status (eose_streams (socket_connection_state 0 Terminated example_backward) ! 0) = Completed
   \<and> completion_condition
         (example_backward\<lparr>socket_state := (socket_state example_backward)(0 := Terminated)\<rparr>)
         (eoseRelays (eose_streams example_backward ! 0))
   \<and> \<not> message_stopped example_backward \<and> \<not> socket_closed example_backward 0
   \<and> message \<lparr>from = ''ws://localhost:1234'', message = EOSE ''sub:0''\<rparr>
         = EOSE (em_subId (eose_streams example_backward ! 0))
   \<and> from \<lparr>from = ''ws://localhost:1234'', message = EOSE ''sub:0''\<rparr>
         \<notin> set (eoseRelays (eose_streams example_backward ! 0))
   \<and> from \<lparr>from = ''ws://localhost:1234'', message = EOSE ''sub:0''\<rparr>
         \<in> fst ` set (relays example_backward)
   \<and> em_status (eose_streams (socket_message 0
         \<lparr>from = ''ws://localhost:1234'', message = EOSE ''sub:0''\<rparr> example_backward) ! 0)
       = Completed
   \<and> completion_condition example_backward
         (set_add (from \<lparr>from = ''ws://localhost:1234'', message = EOSE ''sub:0''\<rparr>)
            (eoseRelays (eose_streams example_backward ! 0)))"
proof -
  have k: "keys_ok (relays example_backward)"
    and i: "0 < length (eose_streams example_backward)"
    and a: "em_status (eose_streams example_backward ! 0) = Active"
    by (simp_all add: stream_eval_defs createRxNostr_def)
  have c1: "completion_condition
         (example_backward\<lparr>socket_state := (socket_state example_backward)(0 := Terminated)\<rparr>)
         (eoseRelays (eose_streams example_backward ! 0))"
    by (simp add: stream_eval_defs createRxNostr_def)
  have c2: "completion_condition example_backward
         (set_add (from \<lparr>from = ''ws://localhost:1234'', message = EOSE ''sub:0''\<rparr>)
            (eoseRelays (eose_streams example_backward ! 0)))"
    by (simp add: stream_eval_defs createRxNostr_def set_add_def)
  have h: "\<not> status_stopped example_backward" "\<not> message_stopped example_backward"
    "\<not> socket_closed example_backward 0"
    "message \<lparr>from = ''ws://localhost:1234'', message = EOSE ''sub:0''\<rparr>
         = EOSE (em_subId (eose_streams example_backward ! 0))"
    "from \<lparr>from = ''ws://localhost:1234'', message = EOSE ''sub:0''\<rparr>
         \<notin> set (eoseRelays (eose_streams example_backward ! 0))"
    "from \<lparr>from = ''ws://localhost:1234'', message = EOSE ''sub:0''\<rparr>
         \<in> fst ` set (relays example_backward)"
    by (simp_all add: stream_eval_defs createRxNostr_def)
  from inner_stream_completion[OF k i a, of 0 Terminated
      "\<lparr>from = ''ws://localhost:1234'', message = EOSE ''sub:0''\<rparr>"] k i a c1 c2 h
  show ?thesis by simp
qed

text \<open>
  The claim as stated fails where a relay is in the state rejected: with the one relay
  of the pool rejected the claimed condition holds, and the stream stays open.
\<close>

theorem inner_stream_completion_counterexample:
  "\<not> (em_status (eose_streams (socket_connection_state 0 Rejected example_backward) ! 0) = Completed
       \<longleftrightarrow> claimed_completion_condition
             (example_backward\<lparr>socket_state := (socket_state example_backward)(0 := Rejected)\<rparr>)
             (eoseRelays (eose_streams example_backward ! 0)))"
  by (simp add: stream_eval_defs createRxNostr_def map_values_def)

subsection \<open>Transport errors\<close>

lemma socket_error_closed: "socket_closed s w \<Longrightarrow> socket_error w why s = s"
  by (simp add: socket_error_def)



subsection \<open>dispose\<close>

lemma fold_ws_call_on:
  "fold (\<lambda>r. ws_call_on (websocket r) c) rs s = s\<lparr>calls := calls s @ map (\<lambda>r. (websocket r, c)) rs\<rparr>"
  by (induction rs arbitrary: s) (simp_all add: ws_call_on_def)

lemma notify_fields:
  assumes "\<And>em s. frame_eq s (snd (h em s))"
  shows "relays (notify h s) = relays s" "message_stopped (notify h s) = message_stopped s"
    "error_stopped (notify h s) = error_stopped s" "status_stopped (notify h s) = status_stopped s"
    "activeReqs (notify h s) = activeReqs s"
  using frame_eq_dispatch[of h s "eose_streams s", OF assms]
  by (simp_all add: notify_def frame_eq_def)

lemma message_complete_fields:
  "relays (message_complete s) = relays s" "message_stopped (message_complete s)"
  "error_stopped (message_complete s) = error_stopped s"
  "status_stopped (message_complete s) = status_stopped s"
  by (simp_all add: message_complete_def notify_fields[OF frame_eq_em_complete])

lemma dispose_calls:
  "dispose s = ((message_complete s)\<lparr>error_stopped := True\<rparr>)
     \<lparr>calls := calls (message_complete s) @ map (\<lambda>r. (websocket r, Dispose)) (map_values (relays s))\<rparr>"
  by (simp add: dispose_def fold_ws_call_on)

text \<open>
  C6 (amended). After \<^verbatim>\<open>dispose()\<close> the subjects \<^verbatim>\<open>message$\<close> and \<^verbatim>\<open>error$\<close> are
  completed, the pool is the one before, and \<^verbatim>\<open>dispose()\<close> has been called on the
  websocket of every relay of the pool. A second \<^verbatim>\<open>dispose()\<close> changes nothing but
  calling \<^verbatim>\<open>dispose()\<close> on each of these websockets again.
\<close>

theorem dispose_completes_and_disposes:
  "message_stopped (dispose s) \<and> error_stopped (dispose s)
   \<and> status_stopped (dispose s) = status_stopped s
   \<and> relays (dispose s) = relays s
   \<and> list_all (\<lambda>r. (websocket r, Dispose) \<in> set (calls (dispose s))) (map_values (relays s))
   \<and> dispose (dispose s) =
       (dispose s)\<lparr>calls := calls (dispose s)
                      @ map (\<lambda>r. (websocket r, Dispose)) (map_values (relays s))\<rparr>"
proof -
  have a: "message_stopped (dispose s)" "error_stopped (dispose s)"
    "status_stopped (dispose s) = status_stopped s" "relays (dispose s) = relays s"
    by (simp_all add: dispose_calls message_complete_fields)
  have b: "list_all (\<lambda>r. (websocket r, Dispose) \<in> set (calls (dispose s))) (map_values (relays s))"
    by (auto simp: dispose_calls list_all_iff)
  have "message_complete (dispose s) = dispose s" using a(1) by (simp add: message_complete_def)
  moreover have "(dispose s)\<lparr>error_stopped := True\<rparr> = dispose s" using a(2) by simp
  ultimately have "dispose (dispose s) =
       (dispose s)\<lparr>calls := calls (dispose s)
                      @ map (\<lambda>r. (websocket r, Dispose)) (map_values (relays s))\<rparr>"
    using dispose_calls[of "dispose s"] a(4) by simp
  with a b show ?thesis by simp
qed

theorem dispose_completes_and_disposes_witness:
  "message_stopped (dispose example_backward) \<and> error_stopped (dispose example_backward)
   \<and> map_keys (relays (dispose example_backward)) = [''ws://localhost:1234'']
   \<and> calls (dispose example_backward) = [(0, Send (CLOSE ''sub:0'')), (0, Dispose)]
   \<and> calls (dispose (dispose example_backward))
       = [(0, Send (CLOSE ''sub:0'')), (0, Dispose), (0, Dispose)]"
proof -
  have c: "calls (dispose example_backward) = [(0, Send (CLOSE ''sub:0'')), (0, Dispose)]"
    by (simp add: dispose_def message_complete_def notify_def em_complete_def em_finalize_def
          example_backward_def createEoseManagedEventObservable_def eval_defs)
  have r: "relays example_backward = [(''ws://localhost:1234'',
                     \<lparr>url = ''ws://localhost:1234'', read = True, write = True,
                      activeSubIds = 0, websocket = 0\<rparr>)]"
    by (simp add: example_backward_def)
  from dispose_completes_and_disposes[of example_backward] c r
  show ?thesis by (simp add: map_keys_def map_values_def)
qed

text \<open>
  The claim as stated fails for mutations after \<^verbatim>\<open>dispose()\<close>: no operation looks at
  whether the client is disposed, so \<^verbatim>\<open>setRelays\<close> on a disposed client still replaces
  the pool and starts the new websocket.
\<close>

theorem dispose_then_setRelays_counterexample:
  "snd (setRelays Some (RelayArray [Url ''ws://localhost:1234'']) (dispose (createRxNostr None None)))
     \<noteq> dispose (createRxNostr None None)
   \<and> map_keys (relays (dispose (createRxNostr None None))) = []
   \<and> map_keys (relays (snd (setRelays Some (RelayArray [Url ''ws://localhost:1234''])
         (dispose (createRxNostr None None))))) = [''ws://localhost:1234'']
   \<and> calls (snd (setRelays Some (RelayArray [Url ''ws://localhost:1234''])
         (dispose (createRxNostr None None)))) = [(0, Start)]"
proof -
  have d: "dispose (createRxNostr None None)
      = (createRxNostr None None)\<lparr>message_stopped := True, error_stopped := True\<rparr>"
    by (simp add: dispose_def message_complete_def notify_def createRxNostr_def map_values_def)
  have k: "map_keys (relays (snd (setRelays Some (RelayArray [Url ''ws://localhost:1234''])
         (dispose (createRxNostr None None))))) = [''ws://localhost:1234'']"
    and c: "calls (snd (setRelays Some (RelayArray [Url ''ws://localhost:1234''])
         (dispose (createRxNostr None None)))) = [(0, Start)]"
    unfolding d by (auto simp: eval_defs)
  have e: "map_keys (relays (dispose (createRxNostr None None))) = []"
    unfolding d by (simp add: createRxNostr_def map_keys_def)
  from k e have "snd (setRelays Some (RelayArray [Url ''ws://localhost:1234''])
         (dispose (createRxNostr None None))) \<noteq> dispose (createRxNostr None None)"
    by auto
  with k c e show ?thesis by simp
qed

subsection \<open>The invariant of the pool is preserved\<close>

lemma sets_shrink_empty: "sets_shrink s s' \<Longrightarrow> subIdSets s a = [] \<Longrightarrow> subIdSets s' a = []"
  unfolding sets_shrink_def by (metis set_empty subset_empty)

lemma fold_finalize_subId_sets:
  "subIdSets (fold (finalize_subId relay) xs s) (activeSubIds relay)
     = filter (\<lambda>x. x \<notin> set xs) (subIdSets s (activeSubIds relay))"
proof (induction xs arbitrary: s)
  case Nil then show ?case by simp
next
  case (Cons x xs)
  have "subIdSets (finalize_subId relay x s) (activeSubIds relay)
      = filter (\<lambda>y. y \<noteq> x) (subIdSets s (activeSubIds relay))"
    by (simp add: finalize_subId_def prim_defs removeAll_filter_not_eq) (metis)
  with Cons[of "finalize_subId relay x s"] show ?case by (simp add: conj_commute)
qed

lemma finalize_relay_None_empties:
  "subIdSets (finalize_relay None relay s) (activeSubIds relay) = []"
  by (simp add: finalize_relay_def truthy_def fold_finalize_subId_sets)

lemma fold_finalize_all_empties:
  "p \<in> set rs \<Longrightarrow> subIdSets (fold (finalize_relay None) rs s) (activeSubIds p) = []"
proof (induction rs arbitrary: s)
  case Nil then show ?case by simp
next
  case (Cons r rs)
  show ?case
  proof (cases "p \<in> set rs")
    case True
    from Cons.IH[OF this] show ?thesis by simp
  next
    case False
    with Cons.prems have e: "r = p" by simp
    have "sets_shrink (finalize_relay None p s) (fold (finalize_relay None) rs (finalize_relay None p s))"
      by (rule sets_shrink_fold) (rule sets_shrink_finalize_relay)
    from sets_shrink_empty[OF this finalize_relay_None_empties] e show ?thesis by simp
  qed
qed

lemma finalizeReq_url_empties:
  assumes "map_of (relays s) u = Some p"
  shows "fst (finalizeReq None (Some u) s) = None
       \<and> subIdSets (snd (finalizeReq None (Some u) s)) (activeSubIds p) = []"
proof (cases "truthy (Some u)")
  case True
  with assms show ?thesis by (simp add: finalizeReq_def finalize_relay_None_empties)
next
  case False
  from assms have "(u, p) \<in> set (relays s)" by (rule map_of_SomeD)
  then have "p \<in> set (map_values (relays s))" by (force simp: map_values_def)
  from fold_finalize_all_empties[OF this] False show ?thesis by (simp add: finalizeReq_def)
qed

lemma finalizeReq_url_no_throw:
  "u = [] \<or> map_of (relays s) u \<noteq> None \<Longrightarrow> fst (finalizeReq None (Some u) s) = None"
  by (auto simp: finalizeReq_def truthy_def)

lemma stop_loop_no_throw:
  "(\<And>u. u \<in> set us \<Longrightarrow> u = [] \<or> map_of (relays s) u \<noteq> None) \<Longrightarrow> fst (stop_loop us s) = None"
proof (induction us arbitrary: s)
  case Nil then show ?case by simp
next
  case (Cons u us)
  obtain e s' where fr: "finalizeReq None (Some u) s = (e, s')" by (cases "finalizeReq None (Some u) s")
  from finalizeReq_url_no_throw[of u s] Cons.prems fr have e: "e = None" by simp
  let ?s'' = "ws_call_opt (map_of (relays s') u) Stop s'"
  have "frame_eq s s'" using frame_eq_finalizeReq[of s None "Some u"] fr by simp
  then have "relays ?s'' = relays s"
    using frame_eq_prims(2)[of s' "map_of (relays s') u" Stop] by (simp add: frame_eq_def)
  with Cons.prems have "\<And>v. v \<in> set us \<Longrightarrow> v = [] \<or> map_of (relays ?s'') v \<noteq> None" by simp
  from Cons.IH[OF this] fr e show ?case by simp
qed

lemma stop_loop_empties:
  "fst (stop_loop us s) = None \<Longrightarrow> u \<in> set us \<Longrightarrow> map_of (relays s) u = Some p \<Longrightarrow>
   subIdSets (snd (stop_loop us s)) (activeSubIds p) = []"
proof (induction us arbitrary: s)
  case Nil then show ?case by simp
next
  case (Cons v us)
  obtain e s' where fr: "finalizeReq None (Some v) s = (e, s')" by (cases "finalizeReq None (Some v) s")
  from Cons.prems(1) fr have e: "e = None" by (cases e) simp_all
  let ?s'' = "ws_call_opt (map_of (relays s') v) Stop s'"
  have fe: "frame_eq s s'" using frame_eq_finalizeReq[of s None "Some v"] fr by simp
  then have rel: "relays ?s'' = relays s"
    using frame_eq_prims(2)[of s' "map_of (relays s') v" Stop] by (simp add: frame_eq_def)
  have res: "stop_loop (v # us) s = stop_loop us ?s''" using fr e by simp
  show ?case
  proof (cases "u = v")
    case True
    from finalizeReq_url_empties[OF Cons.prems(3)] True fr
    have "subIdSets s' (activeSubIds p) = []" by simp
    then have "subIdSets ?s'' (activeSubIds p) = []" by (simp add: subIdSets_ws_call_opt)
    from sets_shrink_empty[OF sets_shrink_stop_loop this] res show ?thesis by simp
  next
    case False
    with Cons.prems(2) have "u \<in> set us" by simp
    moreover from Cons.prems(1) res have "fst (stop_loop us ?s'') = None" by simp
    moreover from Cons.prems(3) rel have "map_of (relays ?s'') u = Some p" by simp
    ultimately show ?thesis using Cons.IH res by simp
  qed
qed

lemma req_fold_sets_other:
  assumes "a \<notin> activeSubIds ` {r \<in> set rs. read r}"
  shows "subIdSets (fold (\<lambda>req. ensureReq req (Some rs) None) reqs s) a = subIdSets s a"
proof (induction reqs arbitrary: s)
  case Nil then show ?case by simp
next
  case (Cons q reqs)
  have "subIdSets (ensureReq q (Some rs) None s) a = subIdSets s a"
    using ensureReq_loop_sets[of q False rs s a] assms by (simp add: ensureReq_def)
  with Cons[of "ensureReq q (Some rs) None s"] show ?case by simp
qed

lemma req_loop_sets_other:
  assumes "\<And>u r. u \<in> set us \<Longrightarrow> map_of nxt u = Some r \<Longrightarrow> read r \<Longrightarrow> activeSubIds r \<noteq> a"
  shows "subIdSets (snd (req_loop nxt us s)) a = subIdSets s a"
proof (cases "those (map (map_of nxt) us)")
  case None then show ?thesis by (simp add: req_loop_def)
next
  case (Some rs)
  from those_map_Some[OF Some] have rs: "rs = map (\<lambda>x. the (map_of nxt x)) us"
    and f: "\<forall>x\<in>set us. map_of nxt x \<noteq> None" by auto
  have "a \<notin> activeSubIds ` {r \<in> set rs. read r}"
  proof
    assume "a \<in> activeSubIds ` {r \<in> set rs. read r}"
    then obtain r where r: "r \<in> set rs" "read r" "activeSubIds r = a" by auto
    from r(1) rs obtain u where u: "u \<in> set us" "r = the (map_of nxt u)" by auto
    with f have "map_of nxt u = Some r" by auto
    from assms[OF u(1) this r(2)] r(3) show False by simp
  qed
  from req_fold_sets_other[OF this] Some show ?thesis by (simp add: req_loop_def)
qed

lemma those_map_all_Some:
  "(\<And>x. x \<in> set xs \<Longrightarrow> f x \<noteq> None) \<Longrightarrow> those (map f xs) = Some (map (\<lambda>x. the (f x)) xs)"
  by (induction xs) (auto split: option.splits)

lemma next_readable_iff:
  assumes ni: "next_inv prev s0 nxt s1"
  shows "u \<in> set (getReadableUrls (Some (map_values nxt)) s') \<longleftrightarrow> (\<exists>r. map_of nxt u = Some r \<and> read r)"
proof
  assume "u \<in> set (getReadableUrls (Some (map_values nxt)) s')"
  then obtain e where e: "e \<in> set nxt" "read (snd e)" "url (snd e) = u"
    by (auto simp: getReadableUrls_def map_values_def)
  from e(1) next_inv_counts(3)[OF ni] have m: "map_of nxt (fst e) = Some (snd e)" by simp
  from next_inv_entry(1)[OF ni m] e(3) have "fst e = u" by simp
  with m e(2) show "\<exists>r. map_of nxt u = Some r \<and> read r" by auto
next
  assume "\<exists>r. map_of nxt u = Some r \<and> read r"
  then obtain r where r: "map_of nxt u = Some r" "read r" by blast
  from r(1) have "(u, r) \<in> set nxt" by (rule map_of_SomeD)
  moreover from next_inv_entry(1)[OF ni r(1)] have "url r = u" .
  ultimately show "u \<in> set (getReadableUrls (Some (map_values nxt)) s')"
    using r(2) by (force simp: getReadableUrls_def map_values_def)
qed

lemma prev_readable_iff:
  assumes inv: "pool_inv s"
  shows "u \<in> set (getReadableUrls None s) \<longleftrightarrow> (\<exists>p. map_of (relays s) u = Some p \<and> read p)"
proof
  assume "u \<in> set (getReadableUrls None s)"
  then obtain e where e: "e \<in> set (relays s)" "read (snd e)" "url (snd e) = u"
    by (auto simp: getReadableUrls_def map_values_def)
  from inv have d: "distinct (map fst (relays s))" by (simp add: pool_inv_def map_keys_def)
  with e(1) have m: "map_of (relays s) (fst e) = Some (snd e)" by simp
  from pool_inv_entry(1)[OF inv m] e(3) have "fst e = u" by simp
  with m e(2) show "\<exists>p. map_of (relays s) u = Some p \<and> read p" by auto
next
  assume "\<exists>p. map_of (relays s) u = Some p \<and> read p"
  then obtain p where p: "map_of (relays s) u = Some p" "read p" by blast
  from p(1) have "(u, p) \<in> set (relays s)" by (rule map_of_SomeD)
  moreover from pool_inv_entry(1)[OF inv p(1)] have "url p = u" .
  ultimately show "u \<in> set (getReadableUrls None s)"
    using p(2) by (force simp: getReadableUrls_def map_values_def)
qed

lemma setRelays_throws_unchanged:
  "input_relays normalizeUrl input = None \<Longrightarrow>
   setRelays normalizeUrl input s = (Some NormalizeUrlError, s)"
  by (simp add: setRelays_def getNextRelayState_def)

lemma pool_inv_setRelays_returns:
  assumes inv: "pool_inv s" and rs: "input_relays normalizeUrl input = Some rs"
  shows "fst (setRelays normalizeUrl input s) = None \<and> pool_inv (snd (setRelays normalizeUrl input s))"
proof -
  obtain nxt s1 where g: "getNextRelayState_loop (relays s) rs [] s = (nxt, s1)"
    by (cases "getNextRelayState_loop (relays s) rs [] s")
  let ?toRead = "subtract (getReadableUrls (Some (map_values nxt)) s1) (getReadableUrls None s1)"
  let ?noRead = "subtract (getReadableUrls None s1) (getReadableUrls (Some (map_values nxt)) s1)"
  have po: "prev_ok (relays s) s" by (rule pool_inv_prev_ok[OF inv])
  have ni: "next_inv (relays s) s nxt s1"
    using next_inv_loop[OF po next_inv_init, of rs] g by simp
  have al: "alloc_ext s s1" using alloc_ext_loop[of s "relays s" rs "[]"] g by simp
  have rel1: "relays s1 = relays s" and ar1: "activeReqs s1 = activeReqs s"
    using al by (simp_all add: alloc_ext_def)
  have prevR: "getReadableUrls None s1 = getReadableUrls None s"
    by (simp add: getReadableUrls_def rel1)
  \<comment> \<open>the loops do not throw\<close>
  have known: "\<And>u. u \<in> set ?noRead \<Longrightarrow> u = [] \<or> map_of (relays s1) u \<noteq> None"
    using prev_readable_iff[OF inv] by (auto simp: subtract_def prevR rel1)
  have "fst (stop_loop ?noRead s1) = None"
    by (rule stop_loop_no_throw) (rule known)
  then obtain s2 where st: "stop_loop ?noRead s1 = (None, s2)"
    by (cases "stop_loop ?noRead s1") auto
  have found: "\<And>u. u \<in> set ?toRead \<Longrightarrow> map_of nxt u \<noteq> None"
    using next_readable_iff[OF ni] by (auto simp: subtract_def)
  have th: "those (map (map_of nxt) ?toRead) \<noteq> None"
    using those_map_all_Some[of ?toRead "map_of nxt"] found by simp
  let ?s2' = "start_loop nxt ?toRead s2"
  from th obtain s3 where r1: "req_loop nxt ?toRead ?s2' = (None, s3)"
    by (cases "req_loop nxt ?toRead ?s2'") (auto simp: req_loop_def split: option.splits if_splits)
  from th obtain s4 where r2: "req_loop nxt ?toRead s3 = (None, s4)"
    by (cases "req_loop nxt ?toRead s3") (auto simp: req_loop_def split: option.splits if_splits)
  let ?s' = "(dispose_loop (subtract (map_keys (relays s4)) (map_keys nxt)) s4)\<lparr>relays := nxt\<rparr>"
  have res: "setRelays normalizeUrl input s = (None, ?s')"
    using rs g st r1 r2 by (simp add: setRelays_def getNextRelayState_def Let_def)
  \<comment> \<open>frames\<close>
  have f2: "frame_eq s1 s2" using frame_eq_stop_loop[of s1 ?noRead] st by simp
  have f2': "frame_eq s2 ?s2'" by (rule frame_eq_start_loop)
  have f3: "frame_eq ?s2' s3" using frame_eq_req_loop[of ?s2' nxt ?toRead] r1 by simp
  have f4: "frame_eq s3 s4" using frame_eq_req_loop[of s3 nxt ?toRead] r2 by simp
  have f5: "frame_eq s4 (dispose_loop (subtract (map_keys (relays s4)) (map_keys nxt)) s4)"
    by (rule frame_eq_dispose_loop)
  note fr = frame_eq_trans[OF f2 frame_eq_trans[OF f2' frame_eq_trans[OF f3 frame_eq_trans[OF f4 f5]]]]
  have cnt: "set_count ?s' = set_count s1" "socket_count ?s' = socket_count s1"
    and ar: "activeReqs ?s' = activeReqs s"
    using fr ar1 by (simp_all add: frame_eq_def)
  have sets': "subIdSets ?s' = subIdSets s4" by (simp add: subIdSets_dispose_loop)
  \<comment> \<open>the sets of the records that are not readable\<close>
  have sh: "sets_shrink s1 s2" using sets_shrink_stop_loop[of s1 ?noRead] st by simp
  have empty: "\<And>k r. map_of nxt k = Some r \<Longrightarrow> \<not> read r \<Longrightarrow> subIdSets ?s' (activeSubIds r) = []"
  proof -
    fix k r assume m: "map_of nxt k = Some r" and nr: "\<not> read r"
    have other: "\<And>u r'. u \<in> set ?toRead \<Longrightarrow> map_of nxt u = Some r' \<Longrightarrow> read r' \<Longrightarrow>
        activeSubIds r' \<noteq> activeSubIds r"
    proof -
      fix u r' assume a: "u \<in> set ?toRead" "map_of nxt u = Some r'" "read r'"
      with m nr have "u \<noteq> k" by auto
      from next_inv_inj[OF ni a(2) m this] show "activeSubIds r' \<noteq> activeSubIds r" by simp
    qed
    have "subIdSets s4 (activeSubIds r) = subIdSets s3 (activeSubIds r)"
      using req_loop_sets_other[of ?toRead nxt "activeSubIds r" s3, OF other] r2 by simp
    also have "\<dots> = subIdSets ?s2' (activeSubIds r)"
      using req_loop_sets_other[of ?toRead nxt "activeSubIds r" ?s2', OF other] r1 by simp
    also have "\<dots> = subIdSets s2 (activeSubIds r)" by (simp add: subIdSets_start_loop)
    also have "\<dots> = []"
    proof (cases "map_of (relays s) k")
      case None
      from next_inv_entry(2)[OF ni m None] al have "subIdSets s1 (activeSubIds r) = []"
        by (simp add: alloc_ext_def)
      from sets_shrink_empty[OF sh this] show ?thesis .
    next
      case (Some p)
      from next_inv_entry(3)[OF ni m Some] have e: "activeSubIds r = activeSubIds p" by simp
      show ?thesis
      proof (cases "read p")
        case False
        with pool_inv_entry(2,3)[OF inv Some] al e have "subIdSets s1 (activeSubIds r) = []"
          by (simp add: alloc_ext_def)
        from sets_shrink_empty[OF sh this] show ?thesis .
      next
        case True
        with Some have "k \<in> set (getReadableUrls None s)" using prev_readable_iff[OF inv] by blast
        moreover from m nr have "k \<notin> set (getReadableUrls (Some (map_values nxt)) s1)"
          using next_readable_iff[OF ni] by auto
        ultimately have i1: "k \<in> set ?noRead" by (simp add: subtract_def prevR)
        have i2: "fst (stop_loop ?noRead s1) = None" using st by simp
        have i3: "map_of (relays s1) k = Some p" using Some rel1 by simp
        have "subIdSets (snd (stop_loop ?noRead s1)) (activeSubIds p) = []"
          by (rule stop_loop_empties[OF i2 i1 i3])
        with st e show ?thesis by simp
      qed
    qed
    finally show "subIdSets ?s' (activeSubIds r) = []" using sets' by simp
  qed
  \<comment> \<open>the invariant of the new state\<close>
  have dk: "distinct (map fst nxt)" by (rule next_inv_counts(3)[OF ni])
  have ent: "\<And>k r. (k, r) \<in> set nxt \<Longrightarrow> map_of nxt k = Some r" using dk by simp
  have la: "list_all (\<lambda>(k, r). url r = k \<and> activeSubIds r < set_count ?s' \<and> websocket r < socket_count ?s'
                         \<and> (read r \<or> subIdSets ?s' (activeSubIds r) = [])) nxt"
    unfolding list_all_iff
  proof (intro ballI)
    fix e assume en: "e \<in> set nxt"
    obtain k r where ekr: "e = (k, r)" by (cases e)
    with en ent have e: "e = (k, r)" "map_of nxt k = Some r" by simp_all
    from next_inv_entry(1)[OF ni e(2)] next_inv_old_bound[OF po ni e(2)] empty[OF e(2)] cnt e(1)
    show "case e of (k, r) \<Rightarrow> url r = k \<and> activeSubIds r < set_count ?s' \<and> websocket r < socket_count ?s'
                         \<and> (read r \<or> subIdSets ?s' (activeSubIds r) = [])"
      by auto
  qed
  have inj: "\<And>x y. x \<in> set nxt \<Longrightarrow> y \<in> set nxt \<Longrightarrow>
      activeSubIds (snd x) = activeSubIds (snd y) \<or> websocket (snd x) = websocket (snd y) \<Longrightarrow> x = y"
  proof -
    fix x y assume a: "x \<in> set nxt" "y \<in> set nxt"
      "activeSubIds (snd x) = activeSubIds (snd y) \<or> websocket (snd x) = websocket (snd y)"
    have m: "map_of nxt (fst x) = Some (snd x)" "map_of nxt (fst y) = Some (snd y)"
      using a(1,2) ent[of "fst x" "snd x"] ent[of "fst y" "snd y"] by simp_all
    have "fst x = fst y"
    proof (rule ccontr)
      assume "fst x \<noteq> fst y"
      from next_inv_inj[OF ni m this] a(3) show False by simp
    qed
    with m show "x = y" by (simp add: prod_eq_iff)
  qed
  from dk have dn: "distinct nxt" by (simp add: distinct_map)
  have dA: "distinct (map activeSubIds (map_values nxt))"
    unfolding map_values_def map_map using dn inj by (auto simp: distinct_map inj_on_def)
  have dW: "distinct (map websocket (map_values nxt))"
    unfolding map_values_def map_map using dn inj by (auto simp: distinct_map inj_on_def)
  have "pool_inv ?s'"
    unfolding pool_inv_def using dk la dA dW ar inv
    by (simp add: map_keys_def pool_inv_def)
  with res show ?thesis by simp
qed

lemma pool_inv_setRelays: "pool_inv s \<Longrightarrow> pool_inv (snd (setRelays normalizeUrl input s))"
  by (cases "input_relays normalizeUrl input")
     (simp_all add: setRelays_throws_unchanged pool_inv_setRelays_returns)

lemma pool_inv_shrink:
  assumes "pool_inv s" "relays s' = relays s" "activeReqs s' = activeReqs s"
    "set_count s' = set_count s" "socket_count s' = socket_count s" "sets_shrink s s'"
  shows "pool_inv s'"
proof -
  have "\<And>a. subIdSets s a = [] \<Longrightarrow> subIdSets s' a = []"
    using sets_shrink_empty[OF assms(6)] .
  with assms(1-5) show ?thesis
    unfolding pool_inv_def list_all_iff by auto
qed

lemma pool_inv_frame_shrink:
  "pool_inv s \<Longrightarrow> frame_eq s s' \<Longrightarrow> sets_shrink s s' \<Longrightarrow> pool_inv s'"
  by (rule pool_inv_shrink) (simp_all add: frame_eq_def)

lemma pool_inv_created: "pool_inv (createRxNostr retry_opt timeout_opt)"
  by (simp add: pool_inv_def createRxNostr_def map_keys_def map_values_def)

lemma pool_inv_ensureReq:
  assumes "pool_inv s"
  shows "pool_inv (ensureReq req None ow s)"
proof -
  let ?s' = "ensureReq req None ow s"
  let ?b = "case ow of None \<Rightarrow> False | Some b \<Rightarrow> b"
  have fe: "frame_eq s ?s'" by (rule frame_eq_ensureReq)
  have st: "\<And>a. subIdSets ?s' a =
     (if a \<in> activeSubIds ` {r \<in> set (map_values (relays s)). read r}
      then set_add (subId_of req) (subIdSets s a) else subIdSets s a)"
    using ensureReq_loop_sets[of req ?b "map_values (relays s)" s] by (simp add: ensureReq_def)
  from assms have dA: "distinct (map activeSubIds (map_values (relays s)))" by (simp add: pool_inv_def)
  have keep: "\<And>k r. (k, r) \<in> set (relays s) \<Longrightarrow> \<not> read r \<Longrightarrow>
      subIdSets ?s' (activeSubIds r) = subIdSets s (activeSubIds r)"
  proof -
    fix k r assume a: "(k, r) \<in> set (relays s)" "\<not> read r"
    have "activeSubIds r \<notin> activeSubIds ` {r \<in> set (map_values (relays s)). read r}"
    proof
      assume "activeSubIds r \<in> activeSubIds ` {r \<in> set (map_values (relays s)). read r}"
      then obtain r' where r': "r' \<in> set (map_values (relays s))" "read r'"
        "activeSubIds r = activeSubIds r'" by auto
      from a(1) have "r \<in> set (map_values (relays s))" by (force simp: map_values_def)
      with dA r'(1,3) have "r = r'" by (auto simp: distinct_map inj_on_def)
      with a(2) r'(2) show False by simp
    qed
    with st show "subIdSets ?s' (activeSubIds r) = subIdSets s (activeSubIds r)" by simp
  qed
  have rel: "relays ?s' = relays s" "activeReqs ?s' = activeReqs s" "set_count ?s' = set_count s"
    "socket_count ?s' = socket_count s" using fe by (simp_all add: frame_eq_def)
  have la: "list_all (\<lambda>(k, r). url r = k \<and> activeSubIds r < set_count ?s' \<and> websocket r < socket_count ?s'
                         \<and> (read r \<or> subIdSets ?s' (activeSubIds r) = [])) (relays s)"
    unfolding list_all_iff
  proof (intro ballI)
    fix e assume en: "e \<in> set (relays s)"
    obtain k r where e: "e = (k, r)" by (cases e)
    from assms en e have o: "url r = k" "activeSubIds r < set_count s" "websocket r < socket_count s"
      "read r \<or> subIdSets s (activeSubIds r) = []"
      by (auto simp: pool_inv_def list_all_iff)
    have "read r \<or> subIdSets ?s' (activeSubIds r) = []"
    proof (cases "read r")
      case True then show ?thesis by simp
    next
      case False
      with keep[of k r] en e o(4) show ?thesis by simp
    qed
    with o e rel show "case e of (k, r) \<Rightarrow> url r = k \<and> activeSubIds r < set_count ?s'
        \<and> websocket r < socket_count ?s' \<and> (read r \<or> subIdSets ?s' (activeSubIds r) = [])"
      by simp
  qed
  from assms la rel show ?thesis
    unfolding pool_inv_def by simp
qed

lemma pool_inv_finalizeReq: "pool_inv s \<Longrightarrow> pool_inv (snd (finalizeReq sid_opt url_opt s))"
  by (rule pool_inv_frame_shrink[OF _ frame_eq_finalizeReq sets_shrink_finalizeReq])

lemma update_entries:
  "(k', v') \<in> set (AList.update k v al) \<Longrightarrow> (k', v') = (k, v) \<or> (k', v') \<in> set al"
  by (induction al) (auto split: if_splits)

lemma delete_entries: "set (AList.delete k al) \<subseteq> set al"
  by (auto simp: AList.delete_eq)

lemma pool_inv_recordActiveReq: "pool_inv s \<Longrightarrow> pool_inv (recordActiveReq req s)"
  unfolding pool_inv_def recordActiveReq_def list_all_iff
  by (auto simp: map_keys_def distinct_update dest: update_entries)

lemma pool_inv_forgetActiveReq: "pool_inv s \<Longrightarrow> pool_inv (forgetActiveReq sid s)"
  unfolding pool_inv_def forgetActiveReq_def list_all_iff
  using delete_entries[of sid "activeReqs s"]
  by (auto simp: map_keys_def distinct_delete)

lemma sets_shrink_em_finalize: "sets_shrink s (snd (em_finalize st em s))"
  by (simp add: em_finalize_def sets_shrink_finalizeReq)

lemma sets_shrink_manageCompletion: "sets_shrink s (snd (manageCompletion em s))"
  by (simp add: manageCompletion_def sets_shrink_refl sets_shrink_em_finalize split: sum.splits)

lemma sets_shrink_em_next: "sets_shrink s (snd (em_next packet em s))"
proof -
  obtain e s1 where f: "finalizeReq (Some (em_subId em)) (Some (from packet)) s = (e, s1)"
    by (cases "finalizeReq (Some (em_subId em)) (Some (from packet)) s")
  have a: "sets_shrink s s1"
    using sets_shrink_finalizeReq[of s "Some (em_subId em)" "Some (from packet)"] f by simp
  show ?thesis
    using f a sets_shrink_trans[OF a sets_shrink_manageCompletion]
    by (auto simp: em_next_def sets_shrink_refl split: IncomingMessage.splits option.splits)
qed

lemma sets_shrink_em_complete: "sets_shrink s (snd (em_complete em s))"
  by (simp add: em_complete_def sets_shrink_refl sets_shrink_em_finalize)

lemma sets_shrink_em_timeout: "sets_shrink s (snd (em_timeout em s))"
  by (simp add: em_timeout_def sets_shrink_refl sets_shrink_em_finalize)

lemma frame_eq_em_timeout: "frame_eq s (snd (em_timeout em s))"
  by (simp add: em_timeout_def frame_eq_refl frame_eq_em_finalize)

lemma sets_shrink_dispatch:
  assumes "\<And>em s. sets_shrink s (snd (h em s))"
  shows "sets_shrink s (snd (dispatch h ems s))"
proof (induction ems arbitrary: s)
  case Nil show ?case by (simp add: sets_shrink_refl)
next
  case (Cons em ems)
  show ?case using sets_shrink_trans[OF assms[of s em] Cons[of "snd (h em s)"]] by simp
qed

lemma pool_inv_notify:
  assumes "\<And>em s. frame_eq s (snd (h em s))" "\<And>em s. sets_shrink s (snd (h em s))"
    and "pool_inv s"
  shows "pool_inv (notify h s)"
proof -
  have "frame_eq s (snd (dispatch h (eose_streams s) s))" by (rule frame_eq_dispatch) (rule assms(1))
  moreover have "sets_shrink s (snd (dispatch h (eose_streams s) s))"
    by (rule sets_shrink_dispatch) (rule assms(2))
  ultimately show ?thesis
    by (intro pool_inv_shrink[OF assms(3)]) (simp_all add: notify_def frame_eq_def sets_shrink_def)
qed

lemma pool_inv_fields:
  assumes "pool_inv s" "relays s' = relays s" "activeReqs s' = activeReqs s"
    "set_count s' = set_count s" "socket_count s' = socket_count s" "subIdSets s' = subIdSets s"
  shows "pool_inv s'"
  by (rule pool_inv_shrink[OF assms(1-5)]) (simp add: sets_shrink_def assms(6))

lemma sets_shrink_streams: "sets_shrink s s1 \<Longrightarrow> sets_shrink s (s1\<lparr>eose_streams := xs\<rparr>)"
  by (simp add: sets_shrink_def)

lemma sets_shrink_unsubscribe_inner: "sets_shrink s (unsubscribe_inner k j s)"
  by (simp add: unsubscribe_inner_def Let_def sets_shrink_refl
        sets_shrink_streams[OF sets_shrink_em_finalize])

lemma sets_shrink_stream_error: "sets_shrink s (stream_error k s)"
  unfolding stream_error_def by (rule sets_shrink_fold) (rule sets_shrink_unsubscribe_inner)

lemma sets_shrink_deliver: "sets_shrink s (deliver p i s)"
proof -
  let ?s1 = "(snd (em_next p (eose_streams s ! i) s))
               \<lparr>eose_streams := (eose_streams s)[i := fst (em_next p (eose_streams s ! i) s)]\<rparr>"
  have a: "sets_shrink s ?s1" by (rule sets_shrink_streams[OF sets_shrink_em_next])
  from a sets_shrink_trans[OF a sets_shrink_stream_error[of ?s1 i]]
  show ?thesis by (simp add: deliver_def Let_def)
qed

lemma sets_shrink_message_next: "sets_shrink s (message_next p s)"
  unfolding message_next_def
  by (simp add: sets_shrink_refl sets_shrink_fold[of "deliver p", OF sets_shrink_deliver])

lemma pool_inv_message_next: "pool_inv s \<Longrightarrow> pool_inv (message_next p s)"
proof -
  assume i: "pool_inv s"
  note f = frame_but_streams_fields[OF frame_but_streams_message_next[of s p]]
  show ?thesis by (rule pool_inv_shrink[OF i f(1) f(2) f(6) f(8) sets_shrink_message_next])
qed

lemma pool_inv_socket_message: "pool_inv s \<Longrightarrow> pool_inv (socket_message w packet s)"
  by (simp add: socket_message_def pool_inv_message_next)

lemma pool_inv_message_complete: "pool_inv s \<Longrightarrow> pool_inv (message_complete s)"
proof -
  assume i: "pool_inv s"
  have "pool_inv (s\<lparr>message_stopped := True\<rparr>)" by (rule pool_inv_fields[OF i]) simp_all
  from pool_inv_notify[OF frame_eq_em_complete sets_shrink_em_complete this] i
  show ?thesis by (simp add: message_complete_def)
qed

lemma pool_inv_dispose: "pool_inv s \<Longrightarrow> pool_inv (dispose s)"
proof -
  assume "pool_inv s"
  then have "pool_inv (message_complete s)" by (rule pool_inv_message_complete)
  then show ?thesis by (rule pool_inv_fields) (simp_all add: dispose_calls)
qed

lemma pool_inv_socket_connection_state:
  "pool_inv s \<Longrightarrow> pool_inv (socket_connection_state w st s)"
proof -
  assume i: "pool_inv s"
  have j: "pool_inv (s\<lparr>socket_state := (socket_state s)(w := st)\<rparr>)"
    by (rule pool_inv_fields[OF i]) simp_all
  from pool_inv_notify[OF frame_eq_manageCompletion sets_shrink_manageCompletion j] j
  show ?thesis by (simp add: socket_connection_state_def status_next_def)
qed

lemma pool_inv_socket_error: "pool_inv s \<Longrightarrow> pool_inv (socket_error w why s)"
proof -
  assume i: "pool_inv s"
  have a: "\<And>s'. pool_inv s' \<Longrightarrow> pool_inv (error_next \<lparr>from = socket_url s w, reason = why\<rparr> s')"
  proof -
    fix s' assume p: "pool_inv s'"
    have "pool_inv (s'\<lparr>errors_out := errors_out s' @ [\<lparr>from = socket_url s w, reason = why\<rparr>]\<rparr>)"
      by (rule pool_inv_fields[OF p]) simp_all
    with p show "pool_inv (error_next \<lparr>from = socket_url s w, reason = why\<rparr> s')"
      by (simp add: error_next_def)
  qed
  have b: "\<And>a. pool_inv (activeSubIds_clear a s)"
    by (rule pool_inv_shrink[OF i]) (simp_all add: activeSubIds_clear_def sets_shrink_def)
  have c: "pool_inv (catchError_handler w why s)"
    unfolding catchError_handler_def using a[OF i] a[OF b] by (simp split: option.splits)
  have d: "pool_inv ((catchError_handler w why s)\<lparr>socket_closed := (socket_closed s)(w := True)\<rparr>)"
    by (rule pool_inv_fields[OF c]) simp_all
  have e: "pool_inv (s\<lparr>socket_retries := (socket_retries s)(w := Suc (socket_retries s w))\<rparr>)"
    by (rule pool_inv_fields[OF i]) simp_all
  from i d e show ?thesis by (simp add: socket_error_def)
qed

lemma pool_inv_ws_call_opt: "pool_inv s \<Longrightarrow> pool_inv (ws_call_opt r c s)"
proof -
  assume p: "pool_inv s"
  have "\<And>w. pool_inv (ws_call_on w c s)"
    by (rule pool_inv_fields[OF p]) (simp_all add: ws_call_on_def)
  with p show ?thesis by (simp add: ws_call_opt_def split: option.splits)
qed

lemma pool_inv_send_then: "pool_inv s \<Longrightarrow> pool_inv (snd (send_then ev p s))"
proof -
  have "\<And>us. pool_inv s \<Longrightarrow>
      pool_inv (fold (\<lambda>u s'. ws_call_opt (map_of (relays s') u) (Send (EVENT ev)) s') us s)"
  proof -
    fix us show "pool_inv s \<Longrightarrow>
      pool_inv (fold (\<lambda>u s'. ws_call_opt (map_of (relays s') u) (Send (EVENT ev)) s') us s)"
      by (induction us arbitrary: s) (simp_all add: pool_inv_ws_call_opt)
  qed
  then show "pool_inv s \<Longrightarrow> pool_inv (snd (send_then ev p s))" by (simp add: send_then_def)
qed

lemma pool_inv_subscribe_inner: "pool_inv s \<Longrightarrow> pool_inv (subscribe_inner uid sid s)"
proof -
  assume i: "pool_inv s"
  let ?em = "createEoseManagedEventObservable uid sid"
  have "pool_inv (snd (em_finalize Completed ?em s))"
    by (rule pool_inv_frame_shrink[OF i frame_eq_em_finalize sets_shrink_em_finalize])
  then have a: "pool_inv ((snd (em_finalize Completed ?em s))
             \<lparr>eose_streams := eose_streams s @ [fst (em_finalize Completed ?em s)]\<rparr>)"
    by (rule pool_inv_fields) simp_all
  have b: "pool_inv (s\<lparr>eose_streams := eose_streams s @ [?em]\<rparr>)"
    by (rule pool_inv_fields[OF i]) simp_all
  from a b show ?thesis by (simp add: subscribe_inner_def)
qed

lemma pool_inv_subId_next: "pool_inv s \<Longrightarrow> pool_inv (snd (subId_next filters sub s))"
  by (auto simp: subId_next_def Let_def ensureReqOnNext_def pool_inv_ensureReq
        pool_inv_recordActiveReq pool_inv_subscribe_inner split: option.splits)

lemma pool_inv_forward_finalize: "pool_inv s \<Longrightarrow> pool_inv (snd (forward_finalize sub s))"
  by (simp add: forward_finalize_def pool_inv_finalizeReq pool_inv_forgetActiveReq)

lemma pool_inv_timeout_at: "pool_inv s \<Longrightarrow> pool_inv (timeout_at i s)"
proof -
  assume i: "pool_inv s"
  have "pool_inv (snd (em_timeout (eose_streams s ! i) s))"
    by (rule pool_inv_frame_shrink[OF i frame_eq_em_timeout sets_shrink_em_timeout])
  then have "pool_inv ((snd (em_timeout (eose_streams s ! i) s))
             \<lparr>eose_streams := (eose_streams s)[i := fst (em_timeout (eose_streams s ! i) s)]\<rparr>)"
    by (rule pool_inv_fields) simp_all
  with i show ?thesis by (simp add: timeout_at_def)
qed

text \<open>Every state of a client satisfies the invariant of the pool.\<close>

theorem reachable_pool_inv: "reachable s \<Longrightarrow> pool_inv s"
proof (induction rule: reachable.induct)
  case (created retry_opt timeout_opt)
  show ?case by (rule pool_inv_created)
next
  case (relays_set s normalizeUrl input)
  then show ?case by (simp add: pool_inv_setRelays)
next
  case (relay_added s normalizeUrl relay)
  then show ?case by (simp add: addRelay_def pool_inv_setRelays)
next
  case (relay_removed s normalizeUrl u)
  then show ?case by (simp add: removeRelay_def Let_def pool_inv_setRelays)
next
  case (reconnected s u)
  then show ?case by (simp add: reconnect_def pool_inv_ws_call_opt)
next
  case (req_emitted s filters sub)
  then show ?case by (simp add: pool_inv_subId_next)
next
  case (forward_unsubscribed s sub)
  then show ?case by (simp add: pool_inv_forward_finalize)
next
  case (timed_out s i)
  then show ?case by (simp add: pool_inv_timeout_at)
next
  case (message_received s w packet)
  then show ?case by (simp add: pool_inv_socket_message)
next
  case (socket_failed s w why)
  then show ?case by (simp add: pool_inv_socket_error)
next
  case (state_reported s w st)
  then show ?case by (simp add: pool_inv_socket_connection_state)
next
  case (event_sent s ev p)
  then show ?case by (simp add: pool_inv_send_then)
next
  case (disposed s)
  then show ?case by (simp add: pool_inv_dispose)
qed

subsection \<open>The registry of forward REQs\<close>

text \<open>
  Only a forward subscription writes \<^verbatim>\<open>activeReqs\<close>: each REQ it emits replaces the
  entry of its sub id, and its unsubscription deletes the entry.
\<close>

lemma setRelays_activeReqs: "activeReqs (snd (setRelays n input s)) = activeReqs s"
proof (cases "getNextRelayState n (relays s) input s")
  case None
  then show ?thesis by (simp add: setRelays_def)
next
  case (Some a)
  obtain nxt s1 where a: "a = (nxt, s1)" by (cases a)
  let ?toRead = "subtract (getReadableUrls (Some (map_values nxt)) s1) (getReadableUrls None s1)"
  let ?noRead = "subtract (getReadableUrls None s1) (getReadableUrls (Some (map_values nxt)) s1)"
  from Some a obtain rs where rs: "getNextRelayState_loop (relays s) rs [] s = (nxt, s1)"
    by (auto simp: getNextRelayState_def split: option.splits)
  have a1: "activeReqs s1 = activeReqs s"
    using alloc_ext_loop[of s "relays s" rs "[]"] rs by (simp add: alloc_ext_def)
  obtain e2 s2 where st: "stop_loop ?noRead s1 = (e2, s2)" by (cases "stop_loop ?noRead s1")
  have a2: "activeReqs s2 = activeReqs s"
    using frame_eq_fields(2)[OF frame_eq_stop_loop[of s1 ?noRead]] st a1 by simp
  let ?s2' = "start_loop nxt ?toRead s2"
  have a2': "activeReqs ?s2' = activeReqs s"
    using frame_eq_fields(2)[OF frame_eq_start_loop[of s2 nxt ?toRead]] a2 by simp
  obtain e3 s3 where r1: "req_loop nxt ?toRead ?s2' = (e3, s3)" by (cases "req_loop nxt ?toRead ?s2'")
  have a3: "activeReqs s3 = activeReqs s"
    using frame_eq_fields(2)[OF frame_eq_req_loop[of ?s2' nxt ?toRead]] r1 a2' by simp
  obtain e4 s4 where r2: "req_loop nxt ?toRead s3 = (e4, s4)" by (cases "req_loop nxt ?toRead s3")
  have a4: "activeReqs s4 = activeReqs s"
    using frame_eq_fields(2)[OF frame_eq_req_loop[of s3 nxt ?toRead]] r2 a3 by simp
  let ?s5 = "dispose_loop (subtract (map_keys (relays s4)) (map_keys nxt)) s4"
  have a5: "activeReqs (?s5\<lparr>relays := nxt\<rparr>) = activeReqs s"
    using frame_eq_fields(2)[OF frame_eq_dispose_loop[of s4 "subtract (map_keys (relays s4)) (map_keys nxt)"]] a4
    by simp
  show ?thesis using Some a st r1 r2 a2 a3 a4 a5
    by (simp add: setRelays_def Let_def split: option.splits)
qed

lemma socket_message_activeReqs: "activeReqs (socket_message w packet s) = activeReqs s"
  by (simp add: socket_message_def frame_but_streams_fields(2)[OF frame_but_streams_message_next])

lemma dispose_activeReqs: "activeReqs (dispose s) = activeReqs s"
  by (simp add: dispose_calls message_complete_def notify_fields(5)[OF frame_eq_em_complete])

lemma socket_connection_state_activeReqs:
  "activeReqs (socket_connection_state w st s) = activeReqs s"
  by (simp add: socket_connection_state_def status_next_def
        notify_fields(5)[OF frame_eq_manageCompletion])

lemma socket_error_activeReqs: "activeReqs (socket_error w why s) = activeReqs s"
  by (simp add: socket_error_def catchError_handler_def error_next_def activeSubIds_clear_def
        split: option.splits)

lemma timeout_at_activeReqs: "activeReqs (timeout_at i s) = activeReqs s"
  by (simp add: timeout_at_def frame_eq_fields(2)[OF frame_eq_em_timeout])

lemma send_then_activeReqs: "activeReqs (snd (send_then ev p s)) = activeReqs s"
proof -
  have "frame_eq s (fold (\<lambda>u s'. ws_call_opt (map_of (relays s') u) (Send (EVENT ev)) s') (pub_urls p) s)"
    by (rule frame_eq_fold) (rule frame_eq_prims)
  then show ?thesis by (simp add: send_then_def frame_eq_def)
qed

lemma subscribe_inner_activeReqs: "activeReqs (subscribe_inner uid sid s) = activeReqs s"
  by (simp add: subscribe_inner_def frame_eq_fields(2)[OF frame_eq_em_finalize])

lemma ensureReqOnNext_activeReqs: "activeReqs (ensureReqOnNext st req s) = activeReqs s"
  by (simp add: ensureReqOnNext_def frame_eq_fields(2)[OF frame_eq_ensureReq])

lemma forward_emission_registry:
  assumes "use_strategy sub = Forward" "\<not> use_done sub"
  shows "map_of (activeReqs (snd (subId_next (Some fs) sub s))) (makeSubId (rxReqId sub) None)
         = Some (REQ (makeSubId (rxReqId sub) None) fs)"
  using assms
  by (simp add: subId_next_def Let_def ensureReqOnNext_activeReqs recordActiveReq_def
        attachSubId_def update_conv')

lemma subId_next_registry:
  assumes "\<not> (use_strategy sub = Forward \<and> makeSubId (rxReqId sub) None = sid)"
  shows "map_of (activeReqs (snd (subId_next filters sub s))) sid = map_of (activeReqs s) sid"
  using assms
  by (auto simp: subId_next_def Let_def ensureReqOnNext_activeReqs recordActiveReq_def
        subscribe_inner_activeReqs attachSubId_def update_conv' split: option.splits)

lemma forward_finalize_registry:
  assumes "makeSubId (rxReqId sub) None \<noteq> sid"
  shows "map_of (activeReqs (snd (forward_finalize sub s))) sid = map_of (activeReqs s) sid"
  using assms
  by (simp add: forward_finalize_def frame_eq_fields(2)[OF frame_eq_finalizeReq]
        forgetActiveReq_def delete_conv')

lemma client_step_registry:
  assumes "\<not> of_subscription sid ev"
  shows "map_of (activeReqs (client_step n ev s)) sid = map_of (activeReqs s) sid"
proof (cases ev)
  case (SetRelays input) then show ?thesis by (simp add: setRelays_activeReqs)
next
  case (AddRelay relay) then show ?thesis by (simp add: addRelay_def setRelays_activeReqs)
next
  case (RemoveRelay u) then show ?thesis by (simp add: removeRelay_def Let_def setRelays_activeReqs)
next
  case (Reconnect u) then show ?thesis
    by (simp add: reconnect_def frame_eq_fields(2)[OF frame_eq_prims(2)])
next
  case (Emit filters sub) with assms show ?thesis by (simp add: subId_next_registry)
next
  case (UnsubscribeForward sub) with assms show ?thesis by (simp add: forward_finalize_registry)
next
  case (Timer i) then show ?thesis by (simp add: timeout_at_activeReqs)
next
  case (Message w packet) then show ?thesis by (simp add: socket_message_activeReqs)
next
  case (SocketError w why) then show ?thesis by (simp add: socket_error_activeReqs)
next
  case (SocketState w st) then show ?thesis by (simp add: socket_connection_state_activeReqs)
next
  case (SendEvent e p) then show ?thesis by (simp add: send_then_activeReqs)
next
  case DisposeClient then show ?thesis by (simp add: dispose_activeReqs)
qed

lemma pool_inv_client_step: "pool_inv s \<Longrightarrow> pool_inv (client_step n ev s)"
proof (cases ev)
  case (AddRelay relay)
  assume "pool_inv s" with AddRelay show ?thesis by (simp add: addRelay_def pool_inv_setRelays)
next
  case (RemoveRelay u)
  assume "pool_inv s" with RemoveRelay show ?thesis
    by (simp add: removeRelay_def Let_def pool_inv_setRelays)
next
  case (Reconnect u)
  assume "pool_inv s" with Reconnect show ?thesis by (simp add: reconnect_def pool_inv_ws_call_opt)
qed (simp_all add: pool_inv_setRelays pool_inv_subId_next pool_inv_forward_finalize
      pool_inv_timeout_at pool_inv_socket_message pool_inv_socket_error
      pool_inv_socket_connection_state pool_inv_send_then pool_inv_dispose)

lemma stays_live_fold:
  assumes "pool_inv s" "stays_live sid evs"
  shows "pool_inv (fold (client_step n) evs s)
       \<and> map_of (activeReqs (fold (client_step n) evs s)) sid = map_of (activeReqs s) sid"
  using assms
proof (induction evs arbitrary: s)
  case Nil then show ?case by simp
next
  case (Cons ev evs)
  from Cons.prems have a: "\<not> of_subscription sid ev" and b: "stays_live sid evs"
    by (simp_all add: stays_live_def)
  from Cons.IH[OF pool_inv_client_step[OF Cons.prems(1)] b] client_step_registry[OF a]
  show ?case by simp
qed

text \<open>A run of a client stays among its states.\<close>

lemma reachable_client_step: "reachable s \<Longrightarrow> reachable (client_step n ev s)"
  by (cases ev) (simp_all add: reachable.intros)

lemma reachable_run: "reachable s \<Longrightarrow> reachable (fold (client_step n) evs s)"
  by (induction evs arbitrary: s) (simp_all add: reachable_client_step)

text \<open>The other two pool transitions are calls of \<^verbatim>\<open>setRelays\<close>.\<close>

lemma pool_transitions_are_setRelays:
  "switchRelays normalizeUrl input s = setRelays normalizeUrl input s"
  "addRelay normalizeUrl relay s
     = setRelays normalizeUrl (RelayArray (map RelayObj (getRelays s) @ [relay])) s"
  by (simp_all add: switchRelays_def addRelay_def)

text \<open>
  C2. Let the pool satisfy its invariant (as it does in every state of a client:
  \<open>reachable_pool_inv\<close>), and let a forward subscription emit the filters \<open>fs\<close>. Let
  any run of calls and events follow in which this subscription stays subscribed and
  no further REQ of its sub id is emitted, so that the frame of \<open>fs\<close> is the most
  recent one. Let then \<^verbatim>\<open>setRelays\<close> (which \<^verbatim>\<open>switchRelays\<close> and \<^verbatim>\<open>addRelay\<close> call:
  \<open>pool_transitions_are_setRelays\<close>) return,
  and let the relay \<open>r\<close> of the new pool be readable while its url was not readable
  before. Then among the calls of this transition exactly one sends a REQ frame with
  the sub id of the subscription to the websocket of \<open>r\<close>, it is the frame of \<open>fs\<close>,
  and the sub id is in the \<^verbatim>\<open>activeSubIds\<close> of \<open>r\<close> afterwards.
\<close>

theorem setRelays_rehydrates_forward_req:
  assumes inv: "pool_inv s0"
    and fwd: "use_strategy sub = Forward" "\<not> use_done sub"
    and live: "stays_live (makeSubId (rxReqId sub) None) evs"
    and ok: "setRelays normalizeUrl input (fold (client_step n) evs (snd (subId_next (Some fs) sub s0)))
               = (None, s')"
    and new: "map_of (relays s') u = Some r" "read r"
    and old: "u \<notin> set (getReadableUrls None
                 (fold (client_step n) evs (snd (subId_next (Some fs) sub s0))))"
  shows "filter (\<lambda>c. fst c = websocket r \<and> is_REQ_for (makeSubId (rxReqId sub) None) c)
           (drop (length (calls (fold (client_step n) evs (snd (subId_next (Some fs) sub s0)))))
              (calls s'))
           = [(websocket r, Send (Req (REQ (makeSubId (rxReqId sub) None) fs)))]
       \<and> makeSubId (rxReqId sub) None \<in> set (subIdSets s' (activeSubIds r))"
proof -
  let ?sid = "makeSubId (rxReqId sub) None"
  let ?s1 = "snd (subId_next (Some fs) sub s0)"
  let ?s = "fold (client_step n) evs ?s1"
  have i1: "pool_inv ?s1" by (rule pool_inv_subId_next[OF inv])
  from stays_live_fold[OF i1 live] forward_emission_registry[OF fwd, of fs s0]
  have i: "pool_inv ?s" and reg: "map_of (activeReqs ?s) ?sid = Some (REQ ?sid fs)" by simp_all
  show ?thesis by (rule setRelays_sends_registered_req[OF i ok reg new old])
qed

lemmas run_eval_defs = example_events_def example_forward_def example_filter_def
  example_filter_later_def connected_def subId_next_def attachSubId_def makeSubId_def
  recordActiveReq_def ensureReqOnNext_def subscribe_inner_def use_def
  createEoseManagedEventObservable_def pickEvents_def eval_defs
  socket_connection_state_def socket_message_def status_next_def
  message_next_def deliver_def stream_error_def unsubscribe_inner_def use_failed_def
  notify_def manageCompletion_def getAllRelayState_def getRelayState_def
  shouldComplete_def fromEntries_def em_finalize_def em_next_def filterBySubId_def

theorem setRelays_rehydrates_forward_req_witness:
  "pool_inv (snd example_forward)
   \<and> use_strategy (fst example_forward) = Forward \<and> \<not> use_done (fst example_forward)
   \<and> stays_live (makeSubId (rxReqId (fst example_forward)) None) example_events
   \<and> fst (setRelays Some (RelayArray [Url ''ws://localhost:1234'', Url ''ws://localhost:1235''])
        (fold (client_step Some) example_events
           (snd (subId_next (Some [example_filter_later]) (fst example_forward)
                   (snd example_forward))))) = None
   \<and> map_of (relays (snd (setRelays Some
          (RelayArray [Url ''ws://localhost:1234'', Url ''ws://localhost:1235''])
          (fold (client_step Some) example_events
             (snd (subId_next (Some [example_filter_later]) (fst example_forward)
                     (snd example_forward)))))))
        ''ws://localhost:1235''
       = Some \<lparr>url = ''ws://localhost:1235'', read = True, write = True,
                activeSubIds = 1, websocket = 1\<rparr>
   \<and> ''ws://localhost:1235'' \<notin> set (getReadableUrls None
          (fold (client_step Some) example_events
             (snd (subId_next (Some [example_filter_later]) (fst example_forward)
                     (snd example_forward)))))
   \<and> filter (\<lambda>c. fst c = 1 \<and> is_REQ_for ''sub:0'' c)
        (drop (length (calls (fold (client_step Some) example_events
                 (snd (subId_next (Some [example_filter_later]) (fst example_forward)
                         (snd example_forward))))))
           (calls (snd (setRelays Some
              (RelayArray [Url ''ws://localhost:1234'', Url ''ws://localhost:1235''])
              (fold (client_step Some) example_events
                 (snd (subId_next (Some [example_filter_later]) (fst example_forward)
                         (snd example_forward))))))))
       = [(1, Send (Req (REQ ''sub:0'' [example_filter_later])))]
   \<and> ''sub:0'' \<in> set (subIdSets (snd (setRelays Some
          (RelayArray [Url ''ws://localhost:1234'', Url ''ws://localhost:1235''])
          (fold (client_step Some) example_events
             (snd (subId_next (Some [example_filter_later]) (fst example_forward)
                     (snd example_forward)))))) 1)"
proof -
  let ?s = "fold (client_step Some) example_events
              (snd (subId_next (Some [example_filter_later]) (fst example_forward)
                      (snd example_forward)))"
  let ?r = "setRelays Some (RelayArray [Url ''ws://localhost:1234'', Url ''ws://localhost:1235'']) ?s"
  have inv: "pool_inv (snd example_forward)"
    unfolding example_forward_def connected_def
    by (intro pool_inv_subId_next pool_inv_setRelays pool_inv_created)
  have fwd: "use_strategy (fst example_forward) = Forward" "\<not> use_done (fst example_forward)"
    by (simp_all add: example_forward_def subId_next_def use_def Let_def)
  have sid: "makeSubId (rxReqId (fst example_forward)) None = ''sub:0''"
    by (simp add: example_forward_def subId_next_def use_def Let_def makeSubId_def)
  have live: "stays_live (makeSubId (rxReqId (fst example_forward)) None) example_events"
    by (simp add: stays_live_def example_events_def example_forward_def subId_next_def
          use_def makeSubId_def Let_def)
  have f: "fst ?r = None" by (auto simp: run_eval_defs)
  then have ok: "?r = (None, snd ?r)" by (simp add: prod_eq_iff)
  have new: "map_of (relays (snd ?r)) ''ws://localhost:1235''
       = Some \<lparr>url = ''ws://localhost:1235'', read = True, write = True,
                activeSubIds = 1, websocket = 1\<rparr>"
    by (auto simp: run_eval_defs)
  have old: "''ws://localhost:1235'' \<notin> set (getReadableUrls None ?s)"
    by (simp add: run_eval_defs)
  from setRelays_rehydrates_forward_req[OF inv fwd live ok new _ old] inv fwd live f new old sid
  show ?thesis by simp
qed

subsection \<open>Publication\<close>

lemma pub_inv_send: "pub_inv (length (getWritableUrls None s)) (send s)"
  by (simp add: pub_inv_def send_def)

lemma pub_inv_take_next:
  assumes "pub_inv W p" "pub_status p = Some Active"
    "case pub_event p of None \<Rightarrow> False | Some ev \<Rightarrow> ok_id packet = event_id ev"
  shows "pub_inv W (take_next packet p)"
  using assms by (auto simp: pub_inv_def take_next_def pub_finalize_def)

lemma take_next_fields:
  "pub_event (take_next packet p) = pub_event p" "pub_buffer (take_next packet p) = pub_buffer p"
  "pub_urls (take_next packet p) = pub_urls p"
  by (simp_all add: take_next_def pub_finalize_def)

lemma pub_inv_replay:
  "pub_inv W q \<Longrightarrow> pub_status q \<noteq> None \<Longrightarrow>
   list_all (\<lambda>packet. case pub_event q of None \<Rightarrow> False | Some ev \<Rightarrow> ok_id packet = event_id ev) xs \<Longrightarrow>
   pub_inv W (fold (\<lambda>packet q. if pub_status q = Some Active then take_next packet q else q) xs q)
   \<and> pub_status (fold (\<lambda>packet q. if pub_status q = Some Active then take_next packet q else q) xs q) \<noteq> None"
proof (induction xs arbitrary: q)
  case Nil then show ?case by simp
next
  case (Cons x xs)
  show ?case
  proof (cases "pub_status q = Some Active")
    case True
    have i: "pub_inv W (take_next x q)"
      using pub_inv_take_next[OF Cons.prems(1) True] Cons.prems(3) by simp
    have n: "pub_status (take_next x q) \<noteq> None" using True by (simp add: take_next_def pub_finalize_def)
    have l: "list_all (\<lambda>packet. case pub_event (take_next x q) of None \<Rightarrow> False
                 | Some ev \<Rightarrow> ok_id packet = event_id ev) xs"
      using Cons.prems(3) by (simp add: take_next_fields)
    from Cons.IH[OF i n l] True show ?thesis by simp
  next
    case False
    with Cons.IH[OF Cons.prems(1,2)] Cons.prems(3) show ?thesis by simp
  qed
qed

lemma pub_inv_subscribe: "pub_inv W p \<Longrightarrow> pub_inv W (pub_subscribe p)"
proof -
  assume i: "pub_inv W p"
  show ?thesis
  proof (cases "pub_status p \<noteq> None")
    case True then show ?thesis using i by (simp add: pub_subscribe_def)
  next
    case False
    note n = this
    show ?thesis
    proof (cases "length (pub_urls p) = 0")
      case True
      with n i show ?thesis by (auto simp: pub_subscribe_def pub_inv_def pub_finalize_def)
    next
      case False
      let ?q = "p\<lparr>pub_status := Some Active\<rparr>"
      from i n False have q: "pub_inv W ?q" by (auto simp: pub_inv_def)
      have l: "list_all (\<lambda>packet. case pub_event ?q of None \<Rightarrow> False
                 | Some ev \<Rightarrow> ok_id packet = event_id ev) (pub_buffer p)"
        using i by (simp add: pub_inv_def)
      from pub_inv_replay[OF q _ l] n False show ?thesis by (simp add: pub_subscribe_def)
    qed
  qed
qed

lemma pub_inv_unsubscribe: "pub_inv W p \<Longrightarrow> pub_inv W (pub_unsubscribe p)"
  by (auto simp: pub_unsubscribe_def pub_inv_def pub_finalize_def)

lemma pub_inv_subject_next:
  assumes "pub_inv W p" "case pub_event p of None \<Rightarrow> False | Some ev \<Rightarrow> ok_id packet = event_id ev"
  shows "pub_inv W (subject_next packet p)"
proof (cases "subject_closed p \<or> subject_stopped p")
  case True then show ?thesis using assms by (simp add: subject_next_def)
next
  case False
  let ?q = "p\<lparr>pub_buffer := drop (length (pub_buffer p) + 1 - max 1 (length (pub_urls p)))
                                  (pub_buffer p @ [packet])\<rparr>"
  have s: "set (pub_buffer ?q) \<subseteq> set (pub_buffer p @ [packet])"
    using set_drop_subset[of "length (pub_buffer p) + 1 - max 1 (length (pub_urls p))" "pub_buffer p @ [packet]"]
    by simp
  have q: "pub_inv W ?q"
    using assms s unfolding pub_inv_def
    by (auto simp: list_all_iff split: option.splits stream_status.splits)
  show ?thesis
  proof (cases "pub_status p = Some Active")
    case True
    have "pub_inv W (take_next packet ?q)"
      by (rule pub_inv_take_next[OF q]) (use True assms(2) in simp_all)
    with False True show ?thesis by (simp add: subject_next_def)
  next
    case False
    with \<open>\<not> (subject_closed p \<or> subject_stopped p)\<close> q show ?thesis by (simp add: subject_next_def)
  qed
qed

lemma pub_inv_listener: "pub_inv W p \<Longrightarrow> pub_inv W (send_listener packet p)"
  by (auto simp: send_listener_def pub_inv_subject_next split: IncomingMessage.splits option.splits)

lemma list_all_False: "list_all (\<lambda>x. False) xs \<longleftrightarrow> xs = []"
  by (cases xs) simp_all

lemma pub_inv_then: "pub_inv W p \<Longrightarrow> pub_event p = None \<Longrightarrow> pub_inv W (fst (send_then ev p s))"
  by (auto simp: send_then_def pub_inv_def list_all_False split: option.splits stream_status.splits)

lemma pub_inv_step: "pub_inv W (fst ps) \<Longrightarrow> pub_inv W (fst (pub_step x ps))"
proof -
  assume i: "pub_inv W (fst ps)"
  obtain p s where ps: "ps = (p, s)" by (cases ps)
  show ?thesis
  proof (cases x)
    case (Resolved ev)
    with i ps pub_inv_then[of W p ev s] show ?thesis by simp
  next
    case (Delivered w packet)
    with i ps pub_inv_listener[of W p packet] show ?thesis by simp
  next
    case Subscribe
    with i ps pub_inv_subscribe[of W p] show ?thesis by simp
  next
    case Unsubscribe
    with i ps pub_inv_unsubscribe[of W p] show ?thesis by simp
  next
    case Disposed
    with i ps show ?thesis by (auto simp: pub_inv_def split: option.splits stream_status.splits)
  qed
qed

lemma pub_inv_run: "pub_inv W (fst ps) \<Longrightarrow> pub_inv W (fst (fold pub_step evs ps))"
  by (induction evs arbitrary: ps) (simp_all add: pub_inv_step)

text \<open>
  C5. Take any sequence of events after \<^verbatim>\<open>send\<close> on a client with \<open>W\<close> writable relays
  (the promise resolving, packets delivered by websockets, the caller subscribing and
  unsubscribing, \<^verbatim>\<open>dispose\<close>). The stream returned has emitted at most \<open>W\<close> packets,
  each with the id of the signed event; once subscribed, it is completed exactly when it
  has emitted \<open>W\<close> packets; and while it runs with the listener subscribed, an OK
  message from any sender makes it emit a packet with the sender and the id of the
  signed event, whatever the \<^verbatim>\<open>eventId\<close> (and the other fields) of the message.
\<close>

theorem send_yields_at_most_W_packets:
  "length (taken (fst (fold pub_step evs (send s, s)))) \<le> length (getWritableUrls None s)
   \<and> list_all (\<lambda>packet. \<exists>ev. pub_event (fst (fold pub_step evs (send s, s))) = Some ev
                          \<and> ok_id packet = event_id ev)
        (taken (fst (fold pub_step evs (send s, s))))
   \<and> (pub_status (fst (fold pub_step evs (send s, s))) \<noteq> None \<longrightarrow>
        (pub_status (fst (fold pub_step evs (send s, s))) = Some Completed
         \<longleftrightarrow> length (taken (fst (fold pub_step evs (send s, s)))) = length (getWritableUrls None s)))
   \<and> (listening (fst (fold pub_step evs (send s, s)))
        \<and> pub_status (fst (fold pub_step evs (send s, s))) = Some Active
        \<and> pub_event (fst (fold pub_step evs (send s, s))) = Some ev \<longrightarrow>
        taken (send_listener \<lparr>from = sender, message = OK eventId accepted msg\<rparr>
                 (fst (fold pub_step evs (send s, s))))
          = taken (fst (fold pub_step evs (send s, s))) @ [\<lparr>from = sender, ok_id = event_id ev\<rparr>])"
proof -
  let ?p = "fst (fold pub_step evs (send s, s))"
  let ?W = "length (getWritableUrls None s)"
  have i: "pub_inv ?W ?p" by (rule pub_inv_run) (simp add: pub_inv_send)
  have a: "length (taken ?p) \<le> ?W" using i by (simp add: pub_inv_def)
  have b: "list_all (\<lambda>packet. \<exists>ev. pub_event ?p = Some ev \<and> ok_id packet = event_id ev) (taken ?p)"
    using i by (auto simp: pub_inv_def list_all_iff split: option.splits)
  have c: "pub_status ?p \<noteq> None \<longrightarrow> (pub_status ?p = Some Completed \<longleftrightarrow> length (taken ?p) = ?W)"
    using i by (auto simp: pub_inv_def split: option.splits stream_status.splits)
  have d: "listening ?p \<and> pub_status ?p = Some Active \<and> pub_event ?p = Some ev \<longrightarrow>
        taken (send_listener \<lparr>from = sender, message = OK eventId accepted msg\<rparr> ?p)
          = taken ?p @ [\<lparr>from = sender, ok_id = event_id ev\<rparr>]"
    using i by (auto simp: pub_inv_def send_listener_def subject_next_def take_next_def pub_finalize_def)
  from a b c d show ?thesis by blast
qed

lemmas pub_eval_defs = send_def send_then_def send_listener_def subject_next_def take_next_def
  pub_finalize_def pub_subscribe_def pub_unsubscribe_def socket_message_def message_next_def
  notify_def example_two_relays_def example_event_def prim_defs

theorem send_yields_at_most_W_packets_witness:
  "length (getWritableUrls None example_two_relays) = 2
   \<and> pub_status (fst (fold pub_step
      [Subscribe, Resolved example_event,
       Delivered 0 \<lparr>from = ''ws://localhost:1234'', message = OK ''e0'' True None\<rparr>]
      (send example_two_relays, example_two_relays))) = Some Active \<and> listening (fst (fold pub_step
      [Subscribe, Resolved example_event,
       Delivered 0 \<lparr>from = ''ws://localhost:1234'', message = OK ''e0'' True None\<rparr>]
      (send example_two_relays, example_two_relays))) \<and> pub_event (fst (fold pub_step
      [Subscribe, Resolved example_event,
       Delivered 0 \<lparr>from = ''ws://localhost:1234'', message = OK ''e0'' True None\<rparr>]
      (send example_two_relays, example_two_relays))) = Some example_event
   \<and> taken (fst (fold pub_step
      [Subscribe, Resolved example_event,
       Delivered 0 \<lparr>from = ''ws://localhost:1234'', message = OK ''e0'' True None\<rparr>]
      (send example_two_relays, example_two_relays))) = [\<lparr>from = ''ws://localhost:1234'', ok_id = ''e1''\<rparr>]
   \<and> taken (send_listener \<lparr>from = ''ws://localhost:1235'', message = OK ''e9'' False None\<rparr> (fst (fold pub_step
      [Subscribe, Resolved example_event,
       Delivered 0 \<lparr>from = ''ws://localhost:1234'', message = OK ''e0'' True None\<rparr>]
      (send example_two_relays, example_two_relays))))
       = taken (fst (fold pub_step
      [Subscribe, Resolved example_event,
       Delivered 0 \<lparr>from = ''ws://localhost:1234'', message = OK ''e0'' True None\<rparr>]
      (send example_two_relays, example_two_relays))) @ [\<lparr>from = ''ws://localhost:1235'', ok_id = event_id example_event\<rparr>]
   \<and> pub_status (fst (fold pub_step
      [Subscribe, Resolved example_event,
       Delivered 0 \<lparr>from = ''ws://localhost:1234'', message = OK ''e0'' True None\<rparr>,
       Delivered 0 \<lparr>from = ''ws://localhost:1234'', message = OK ''e1'' False None\<rparr>,
       Delivered 1 \<lparr>from = ''ws://localhost:1235'', message = OK ''e1'' True None\<rparr>]
      (send example_two_relays, example_two_relays))) = Some Completed
   \<and> taken (fst (fold pub_step
      [Subscribe, Resolved example_event,
       Delivered 0 \<lparr>from = ''ws://localhost:1234'', message = OK ''e0'' True None\<rparr>,
       Delivered 0 \<lparr>from = ''ws://localhost:1234'', message = OK ''e1'' False None\<rparr>,
       Delivered 1 \<lparr>from = ''ws://localhost:1235'', message = OK ''e1'' True None\<rparr>]
      (send example_two_relays, example_two_relays))) = [\<lparr>from = ''ws://localhost:1234'', ok_id = ''e1''\<rparr>,
                  \<lparr>from = ''ws://localhost:1234'', ok_id = ''e1''\<rparr>]
   \<and> length (taken (fst (fold pub_step
      [Subscribe, Resolved example_event,
       Delivered 0 \<lparr>from = ''ws://localhost:1234'', message = OK ''e0'' True None\<rparr>,
       Delivered 0 \<lparr>from = ''ws://localhost:1234'', message = OK ''e1'' False None\<rparr>,
       Delivered 1 \<lparr>from = ''ws://localhost:1235'', message = OK ''e1'' True None\<rparr>]
      (send example_two_relays, example_two_relays)))) = length (getWritableUrls None example_two_relays)"
proof -
  have w: "length (getWritableUrls None example_two_relays) = 2"
    by (simp add: example_two_relays_def getWritableUrls_def map_values_def)
  have p1: "pub_status (fst (fold pub_step
      [Subscribe, Resolved example_event,
       Delivered 0 \<lparr>from = ''ws://localhost:1234'', message = OK ''e0'' True None\<rparr>]
      (send example_two_relays, example_two_relays))) = Some Active" "listening (fst (fold pub_step
      [Subscribe, Resolved example_event,
       Delivered 0 \<lparr>from = ''ws://localhost:1234'', message = OK ''e0'' True None\<rparr>]
      (send example_two_relays, example_two_relays)))" "pub_event (fst (fold pub_step
      [Subscribe, Resolved example_event,
       Delivered 0 \<lparr>from = ''ws://localhost:1234'', message = OK ''e0'' True None\<rparr>]
      (send example_two_relays, example_two_relays))) = Some example_event"
    "taken (fst (fold pub_step
      [Subscribe, Resolved example_event,
       Delivered 0 \<lparr>from = ''ws://localhost:1234'', message = OK ''e0'' True None\<rparr>]
      (send example_two_relays, example_two_relays))) = [\<lparr>from = ''ws://localhost:1234'', ok_id = ''e1''\<rparr>]"
    by (simp_all add: pub_eval_defs createRxNostr_def getWritableUrls_def map_values_def)
  have p2: "pub_status (fst (fold pub_step
      [Subscribe, Resolved example_event,
       Delivered 0 \<lparr>from = ''ws://localhost:1234'', message = OK ''e0'' True None\<rparr>,
       Delivered 0 \<lparr>from = ''ws://localhost:1234'', message = OK ''e1'' False None\<rparr>,
       Delivered 1 \<lparr>from = ''ws://localhost:1235'', message = OK ''e1'' True None\<rparr>]
      (send example_two_relays, example_two_relays))) = Some Completed"
    "taken (fst (fold pub_step
      [Subscribe, Resolved example_event,
       Delivered 0 \<lparr>from = ''ws://localhost:1234'', message = OK ''e0'' True None\<rparr>,
       Delivered 0 \<lparr>from = ''ws://localhost:1234'', message = OK ''e1'' False None\<rparr>,
       Delivered 1 \<lparr>from = ''ws://localhost:1235'', message = OK ''e1'' True None\<rparr>]
      (send example_two_relays, example_two_relays))) = [\<lparr>from = ''ws://localhost:1234'', ok_id = ''e1''\<rparr>,
                  \<lparr>from = ''ws://localhost:1234'', ok_id = ''e1''\<rparr>]"
    by (simp_all add: pub_eval_defs createRxNostr_def getWritableUrls_def map_values_def)
  from send_yields_at_most_W_packets[of "[Subscribe, Resolved example_event,
       Delivered 0 \<lparr>from = ''ws://localhost:1234'', message = OK ''e0'' True None\<rparr>]"
      example_two_relays example_event "''ws://localhost:1235''" "''e9''" False None]
    send_yields_at_most_W_packets[of "[Subscribe, Resolved example_event,
       Delivered 0 \<lparr>from = ''ws://localhost:1234'', message = OK ''e0'' True None\<rparr>,
       Delivered 0 \<lparr>from = ''ws://localhost:1234'', message = OK ''e1'' False None\<rparr>,
       Delivered 1 \<lparr>from = ''ws://localhost:1235'', message = OK ''e1'' True None\<rparr>]"
      example_two_relays example_event "''ws://localhost:1235''" "''e9''" False None]
    w p1 p2
  show ?thesis by simp
qed

subsection \<open>The scenarios of the test suite\<close>

text \<open>
  The sequences of frames that the tests of the repository expect of a single relay,
  computed by the model.
\<close>

lemmas use_eval_defs = subId_next_def attachSubId_def makeSubId_def recordActiveReq_def
  forgetActiveReq_def ensureReqOnNext_def subscribe_inner_def use_def forward_finalize_def
  createEoseManagedEventObservable_def socket_message_def message_next_def notify_def
  deliver_def stream_error_def unsubscribe_inner_def use_failed_def
  em_next_def filterBySubId_def manageCompletion_def getAllRelayState_def getRelayState_def
  shouldComplete_def fromEntries_def em_finalize_def pickEvents_def

lemma connected_state:
  "relays connected = [(''ws://localhost:1234'',
       \<lparr>url = ''ws://localhost:1234'', read = True, write = True, activeSubIds = 0, websocket = 0\<rparr>)]"
  "calls connected = [(0, Start)]"
  by (auto simp: connected_def eval_defs)

text \<open>[forward] Each REQ is published with the same subId.\<close>

lemma test_forward_same_subId:
  "calls (snd (forward_finalize (use 0 ''sub'' Forward)
      (snd (subId_next (Some [f3]) (fst (subId_next (Some [f2]) (fst (subId_next (Some [f1]) (use 0 ''sub'' Forward) connected))
              (snd (subId_next (Some [f1]) (use 0 ''sub'' Forward) connected))))
         (snd (subId_next (Some [f2]) (fst (subId_next (Some [f1]) (use 0 ''sub'' Forward) connected))
              (snd (subId_next (Some [f1]) (use 0 ''sub'' Forward) connected))))))))
   = [(0, Start), (0, Send (Req (REQ ''sub:0'' [f1]))), (0, Send (Req (REQ ''sub:0'' [f2]))),
      (0, Send (Req (REQ ''sub:0'' [f3]))), (0, Send (CLOSE ''sub:0''))]"
  by (simp add: connected_def use_eval_defs eval_defs)

text \<open>[backward] After receiving EOSE, CLOSE is sent out.\<close>

lemma test_backward_close_after_eose:
  "calls (socket_message 0 \<lparr>from = ''ws://localhost:1234'', message = EOSE ''sub:0''\<rparr>
            (snd (subId_next (Some [f1]) (use 0 ''sub'' Backward) connected)))
   = [(0, Start), (0, Send (Req (REQ ''sub:0'' [f1]))), (0, Send (CLOSE ''sub:0''))]"
  by (simp add: connected_def use_eval_defs eval_defs)


text \<open>[backward] Each EOSE CLOSEs the REQ in the order of arrival.\<close>

lemma test_backward_close_in_order_of_eose:
  "calls (socket_message 0 \<lparr>from = ''ws://localhost:1234'', message = EOSE ''sub:0''\<rparr>
     (socket_message 0 \<lparr>from = ''ws://localhost:1234'', message = EOSE ''sub:1''\<rparr>
        (snd (subId_next (Some [f2]) (fst (subId_next (Some [f1]) (use 0 ''sub'' Backward) connected))
           (snd (subId_next (Some [f1]) (use 0 ''sub'' Backward) connected))))))
   = [(0, Start), (0, Send (Req (REQ ''sub:0'' [f1]))), (0, Send (Req (REQ ''sub:1'' [f2]))),
      (0, Send (CLOSE ''sub:1'')), (0, Send (CLOSE ''sub:0''))]"
  by (simp add: connected_def use_eval_defs eval_defs)

text \<open>
  An EOSE whose sender is not in the pool makes the inner stream of its sub id fail.
  The inner streams of that subscription are unsubscribed in the order of their
  creation, which closes their REQs; the streams of other subscriptions go on; and the
  subscription sends no further REQ.
\<close>

lemma inner_stream_error_ends_subscription:
  "calls (socket_message 0 \<lparr>from = ''ws://localhost:9999'', message = EOSE ''sub:1''\<rparr>
            example_inner_streams)
   = [(0, Start), (0, Send (Req (REQ ''sub:0'' [example_filter]))),
      (0, Send (Req (REQ ''sub:1'' [example_filter_later]))),
      (0, Send (Req (REQ ''other:0'' [example_filter]))),
      (0, Send (CLOSE ''sub:0'')), (0, Send (CLOSE ''sub:1''))]"
  "map em_status (eose_streams
      (socket_message 0 \<lparr>from = ''ws://localhost:9999'', message = EOSE ''sub:1''\<rparr>
         example_inner_streams))
   = [Unsubscribed, Errored, Active]"
  "snd (subId_next (Some [example_filter])
      ((use 0 ''sub'' Backward)\<lparr>use_index := 2\<rparr>)
      (socket_message 0 \<lparr>from = ''ws://localhost:9999'', message = EOSE ''sub:1''\<rparr>
         example_inner_streams))
   = socket_message 0 \<lparr>from = ''ws://localhost:9999'', message = EOSE ''sub:1''\<rparr>
       example_inner_streams"
  by (simp_all add: example_inner_streams_def example_filter_def example_filter_later_def
        connected_def use_eval_defs eval_defs)

lemma makeSubId_examples:
  "makeSubId ''sub'' None = ''sub:0''" "makeSubId ''sub'' (Some 7) = ''sub:7''"
  "makeSubId ''sub'' (Some 12) = ''sub:12''"
  by (simp_all add: makeSubId_def)

end
